theory Spec2Isabelle
  imports Complex_Main "HOL-Library.Sublist" "HOL-Library.Log_Nat"
begin

section \<open>JavaScript strings\<close>

text \<open>
  A string is a list of characters, and a character is a code unit below 256: the
  character \<open>CHR n\<close> is the code point \<open>n\<close> (ASCII and Latin-1). The classes of
  characters are those of ECMAScript on these code points: white space as \<open>trim\<close> and
  \<open>\s\<close> see it (tab, line feed, vertical tab, form feed, carriage return, space and
  the no-break space \<open>0xA0\<close>), line terminators (line feed and carriage return), and
  \<open>\w\<close>. \<open>toLowerCase\<close> maps the capitals \<open>A\<close> to \<open>Z\<close> and the Latin-1 capitals
  \<open>0xC0\<close> to \<open>0xDE\<close>, the multiplication sign \<open>0xD7\<close> apart, to the code point 32
  above, and leaves every other character alone.
\<close>

definition isLineTerminator :: "char \<Rightarrow> bool" where
  "isLineTerminator c = (c = CHR 0x0A \<or> c = CHR 0x0D)"

definition isWhiteSpace :: "char \<Rightarrow> bool" where
  "isWhiteSpace c =
     (c = CHR '' '' \<or> c = CHR 0x09 \<or> c = CHR 0x0A \<or> c = CHR 0x0B \<or> c = CHR 0x0C \<or> c = CHR 0x0D \<or>
      c = CHR 0xA0)"

definition isWordChar :: "char \<Rightarrow> bool" where
  "isWordChar c =
     (let n = of_char c :: nat
      in (97 \<le> n \<and> n \<le> 122) \<or> (65 \<le> n \<and> n \<le> 90) \<or> (48 \<le> n \<and> n \<le> 57) \<or> n = 95)"

definition lowerChar :: "char \<Rightarrow> char" where
  "lowerChar c =
     (let n = of_char c :: nat
      in if (65 \<le> n \<and> n \<le> 90) \<or> (192 \<le> n \<and> n \<le> 222 \<and> n \<noteq> 215) then char_of (n + 32)
         else c)"

definition toLowerCase :: "string \<Rightarrow> string" where
  "toLowerCase s = map lowerChar s"

definition trim :: "string \<Rightarrow> string" where
  "trim s = rev (dropWhile isWhiteSpace (rev (dropWhile isWhiteSpace s)))"

text \<open>\<open>s.includes(k)\<close>: \<open>k\<close> occurs in \<open>s\<close> as a contiguous substring.\<close>

fun includes_str :: "string \<Rightarrow> string \<Rightarrow> bool" where
  "includes_str [] k = (k = [])"
| "includes_str (c # cs) k = (prefix k (c # cs) \<or> includes_str cs k)"

text \<open>
  \<open>s.split(d)\<close> for a string separator \<open>d\<close>. An empty separator splits the string
  into its characters; otherwise the string is cut at every occurrence of \<open>d\<close>, found
  from the left.
\<close>

function split_at :: "string \<Rightarrow> string \<Rightarrow> string \<Rightarrow> string list" where
  "split_at d acc [] = [rev acc]"
| "split_at d acc (c # cs) =
     (if d \<noteq> [] \<and> prefix d (c # cs)
      then rev acc # split_at d [] (drop (length d) (c # cs))
      else split_at d (c # acc) cs)"
  by pat_completeness auto
termination
  by (relation "measure (\<lambda>(d, acc, s). length s)") auto

definition split :: "string \<Rightarrow> string \<Rightarrow> string list" where
  "split s d = (if d = [] then map (\<lambda>c. [c]) s else split_at d [] s)"

section \<open>Topic classifier\<close>

text \<open>
  The table \<open>topics\<close> of \<open>detectTopic\<close>, in the order in which \<open>Object.entries\<close>
  enumerates it (insertion order of the object literal).
\<close>

definition topics :: "(string \<times> string list) list" where
  "topics =
     [(''technical'', [''code'', ''bug'', ''error'', ''function'', ''variable'', ''debug'',
                       ''implement'', ''deploy'']),
      (''question'', [''what'', ''how'', ''why'', ''when'', ''where'', ''?'']),
      (''discussion'', [''think'', ''opinion'', ''discuss'', ''consider'', ''suggest'',
                        ''propose'']),
      (''planning'', [''plan'', ''schedule'', ''deadline'', ''milestone'', ''timeline'',
                      ''sprint'']),
      (''feedback'', [''feedback'', ''review'', ''comment'', ''suggestion'', ''improve'',
                      ''better''])]"

text \<open>One iteration of the \<open>for ... of\<close> loop; the state is \<open>(maxScore, detectedTopic)\<close>.\<close>

definition detectTopic_iter :: "string \<Rightarrow> nat \<times> string \<Rightarrow> string \<times> string list \<Rightarrow> nat \<times> string" where
  "detectTopic_iter lowerContent st entry =
     (case st of (maxScore, detectedTopic) \<Rightarrow>
        (case entry of (topic, keywords) \<Rightarrow>
           (let score = length (filter (\<lambda>keyword. includes_str lowerContent keyword) keywords)
            in if score > maxScore then (score, topic) else (maxScore, detectedTopic))))"

text \<open>
  \<open>detectTopic(content)\<close>. The argument is \<open>None\<close> when the content is \<open>undefined\<close> or
  \<open>null\<close>; \<open>!content\<close> holds for these and for the empty string.
\<close>

definition detectTopic :: "string option \<Rightarrow> string" where
  "detectTopic content =
     (case content of
        None \<Rightarrow> ''general''
      | Some c \<Rightarrow>
          if c = [] then ''general''
          else snd (foldl (detectTopic_iter (toLowerCase c)) (0, ''general'') topics))"

section \<open>Regular expressions\<close>

text \<open>
  The regular expressions of the parser, as a datatype with the backtracking semantics
  of ECMAScript: \<open>rmatch r st\<close> lists every way of matching \<open>r\<close> at the state \<open>st\<close>
  in the order in which the backtracking matcher tries them, so its head is the match
  the matcher returns. A state is the character before the current position (\<open>None\<close> at
  the start of the input), the rest of the input, and the text of capture group 1
  (\<open>None\<close> while the group has not taken part). \<open>LineStart\<close> and \<open>LineEnd\<close> are
  \<open>^\<close> and \<open>$\<close> under the flag \<open>m\<close>. The datatype has no flag \<open>g\<close> or \<open>y\<close>: \<open>match\<close>
  and \<open>replace\<close> find the leftmost match only.
\<close>

datatype regex =
    Empty
  | Chars "char \<Rightarrow> bool"
  | LineStart
  | LineEnd
  | Cat regex regex
  | Alt regex regex
  | Star regex
  | Plus regex
  | PlusLazy regex
  | Capture regex

type_synonym mstate = "char option \<times> string \<times> string option"

definition progress :: "mstate \<Rightarrow> mstate \<Rightarrow> bool" where
  "progress st st' = (length (fst (snd st')) < length (fst (snd st)))"

text \<open>
  Greedy and lazy iteration of a matcher \<open>m\<close>. An iteration that consumes nothing is
  rejected; the first argument bounds the number of iterations by the length of the
  remaining input, which no sequence of consuming iterations exceeds.
\<close>

fun star_greedy :: "nat \<Rightarrow> (mstate \<Rightarrow> mstate list) \<Rightarrow> mstate \<Rightarrow> mstate list" where
  "star_greedy 0 m st = [st]"
| "star_greedy (Suc n) m st =
     concat (map (star_greedy n m) (filter (progress st) (m st))) @ [st]"

fun star_lazy :: "nat \<Rightarrow> (mstate \<Rightarrow> mstate list) \<Rightarrow> mstate \<Rightarrow> mstate list" where
  "star_lazy 0 m st = [st]"
| "star_lazy (Suc n) m st =
     st # concat (map (star_lazy n m) (filter (progress st) (m st)))"

definition set_capture :: "string \<Rightarrow> mstate \<Rightarrow> mstate" where
  "set_capture r st' =
     (case st' of (p', r', c') \<Rightarrow> (p', r', Some (take (length r - length r') r)))"

primrec rmatch :: "regex \<Rightarrow> mstate \<Rightarrow> mstate list" where
  "rmatch Empty = (\<lambda>st. [st])"
| "rmatch (Chars P) =
     (\<lambda>st. case st of (p, r, c) \<Rightarrow>
        (case r of [] \<Rightarrow> [] | x # xs \<Rightarrow> if P x then [(Some x, xs, c)] else []))"
| "rmatch LineStart =
     (\<lambda>st. case st of (p, r, c) \<Rightarrow>
        (case p of None \<Rightarrow> [st] | Some x \<Rightarrow> if isLineTerminator x then [st] else []))"
| "rmatch LineEnd =
     (\<lambda>st. case st of (p, r, c) \<Rightarrow>
        (case r of [] \<Rightarrow> [st] | x # xs \<Rightarrow> if isLineTerminator x then [st] else []))"
| "rmatch (Cat a b) = (\<lambda>st. concat (map (rmatch b) (rmatch a st)))"
| "rmatch (Alt a b) = (\<lambda>st. rmatch a st @ rmatch b st)"
| "rmatch (Star a) = (\<lambda>st. star_greedy (length (fst (snd st))) (rmatch a) st)"
| "rmatch (Plus a) =
     (\<lambda>st. concat (map (\<lambda>st'. star_greedy (length (fst (snd st'))) (rmatch a) st')
                        (rmatch a st)))"
| "rmatch (PlusLazy a) =
     (\<lambda>st. concat (map (\<lambda>st'. star_lazy (length (fst (snd st'))) (rmatch a) st')
                        (rmatch a st)))"
| "rmatch (Capture a) =
     (\<lambda>st. map (set_capture (fst (snd st))) (rmatch a st))"

text \<open>
  \<open>regex_exec_from r pre s\<close> looks for the leftmost match of \<open>r\<close> in \<open>s\<close>, where
  \<open>pre\<close> is the input before \<open>s\<close>, reversed. The result is the input before the
  match, the input after it, and capture group 1.
\<close>

fun regex_exec_from :: "regex \<Rightarrow> string \<Rightarrow> string \<Rightarrow> (string \<times> string \<times> string option) option" where
  "regex_exec_from r pre s =
     (case rmatch r (case pre of [] \<Rightarrow> None | x # xs \<Rightarrow> Some x, s, None) of
        (p', s', c') # rest \<Rightarrow> Some (rev pre, s', c')
      | [] \<Rightarrow> (case s of [] \<Rightarrow> None | x # xs \<Rightarrow> regex_exec_from r (x # pre) xs))"

definition regex_exec :: "regex \<Rightarrow> string \<Rightarrow> (string \<times> string \<times> string option) option" where
  "regex_exec r s = regex_exec_from r [] s"

text \<open>A word matched under the flag \<open>i\<close>.\<close>

fun word_ci :: "string \<Rightarrow> regex" where
  "word_ci [] = Empty"
| "word_ci [k] = Chars (\<lambda>c. lowerChar c = lowerChar k)"
| "word_ci (k # ks) = Cat (Chars (\<lambda>c. lowerChar c = lowerChar k)) (word_ci ks)"

definition notLineTerminator :: "char \<Rightarrow> bool" where
  "notLineTerminator c = (\<not> isLineTerminator c)"

text \<open>\<^verbatim>\<open>/^#+\s+(.+?)$/m\<close>\<close>

definition headerRegex :: regex where
  "headerRegex =
     Cat LineStart
       (Cat (Plus (Chars (\<lambda>c. c = CHR ''#'')))
         (Cat (Plus (Chars isWhiteSpace))
           (Cat (Capture (PlusLazy (Chars notLineTerminator))) LineEnd)))"

text \<open>\<^verbatim>\<open>/(?:section|topic|discuss)[\s:]+(.+?)$/im\<close>\<close>

definition sectionRegex :: regex where
  "sectionRegex =
     Cat (Alt (word_ci ''section'') (Alt (word_ci ''topic'') (word_ci ''discuss'')))
       (Cat (Plus (Chars (\<lambda>c. isWhiteSpace c \<or> c = CHR '':'')))
         (Cat (Capture (PlusLazy (Chars notLineTerminator))) LineEnd))"

text \<open>\<^verbatim>\<open>/^([\w\s]+?):\s*/m\<close>, the default \<open>authorPattern\<close>.\<close>

definition default_authorPattern :: regex where
  "default_authorPattern =
     Cat LineStart
       (Cat (Capture (PlusLazy (Chars (\<lambda>c. isWordChar c \<or> isWhiteSpace c))))
         (Cat (Chars (\<lambda>c. c = CHR '':'')) (Star (Chars isWhiteSpace))))"

section \<open>Messages, dates and sections\<close>

text \<open>
  The values a message's \<open>timestamp\<close> property holds: absent, \<open>null\<close>, a string (the
  repository stores ISO strings), a number of milliseconds, or a \<open>Date\<close>. The time
  value of a \<open>Date\<close> is an integer number of milliseconds, or \<open>None\<close> for an invalid
  date (\<open>NaN\<close>).
\<close>

datatype js_timestamp =
    TsUndefined
  | TsNull
  | TsString string
  | TsNumber int
  | TsDate "int option"

record message =
  id_msg :: "nat option"
  timestamp :: js_timestamp
  content :: "string option"
  author :: "string option"
  user :: "string option"
  originalContent :: "string option"

text \<open>
  A \<open>ConversationSection\<close>. The parameter is the representation of the \<open>messages\<close>
  array: the list itself where the array is owned by the function that builds the
  section, a reference into the store where the caller supplies the section.
\<close>

record 'm conversationSection =
  id_sec :: nat
  title :: string
  messages :: 'm
  startTime :: "int option"
  endTime :: "int option"
  topic :: string
  participants :: "string list"

text \<open>
  What the functions read from their environment: \<open>Date.parse\<close> on strings, and the
  clock, where \<open>clock env i\<close> is the time the \<open>i\<close>-th iteration of a loop reads
  (\<open>Date.now()\<close>, \<open>new Date()\<close>).
\<close>

record env =
  date_parse :: "string \<Rightarrow> int option"
  clock :: "nat \<Rightarrow> int"

definition truthy_timestamp :: "js_timestamp \<Rightarrow> bool" where
  "truthy_timestamp v =
     (case v of
        TsUndefined \<Rightarrow> False
      | TsNull \<Rightarrow> False
      | TsString s \<Rightarrow> s \<noteq> []
      | TsNumber n \<Rightarrow> n \<noteq> 0
      | TsDate d \<Rightarrow> True)"

definition truthy_string :: "string option \<Rightarrow> bool" where
  "truthy_string v = (case v of None \<Rightarrow> False | Some s \<Rightarrow> s \<noteq> [])"

definition time_clip :: "int \<Rightarrow> int option" where
  "time_clip n = (if \<bar>n\<bar> \<le> 8640000000000000 then Some n else None)"

text \<open>
  \<open>new Date(v)\<close>: the time value of the date constructed from \<open>v\<close>. Whatever \<open>v\<close>
  is, the time value read from it goes through \<open>TimeClip\<close>, so that the time value of
  a valid date is at most 8640000000000000 in magnitude.
\<close>

definition clip :: "int option \<Rightarrow> int option" where
  "clip tv = (case tv of None \<Rightarrow> None | Some n \<Rightarrow> time_clip n)"

definition new_Date :: "env \<Rightarrow> js_timestamp \<Rightarrow> int option" where
  "new_Date env v =
     (case v of
        TsUndefined \<Rightarrow> None
      | TsNull \<Rightarrow> Some 0
      | TsString s \<Rightarrow> clip (date_parse env s)
      | TsNumber n \<Rightarrow> time_clip n
      | TsDate d \<Rightarrow> clip d)"

text \<open>Decimal rendering of a number in a template literal.\<close>

fun number_to_string :: "nat \<Rightarrow> string" where
  "number_to_string n =
     (if n < 10 then [char_of (48 + n)]
      else number_to_string (n div 10) @ [char_of (48 + n mod 10)])"

declare number_to_string.simps [simp del]

text \<open>A \<open>Set\<close> of strings keeps its elements in insertion order.\<close>

definition set_add :: "string list \<Rightarrow> string \<Rightarrow> string list" where
  "set_add s x = (if x \<in> set s then s else s @ [x])"

definition new_Set :: "string list \<Rightarrow> string list" where
  "new_Set xs = foldl set_add [] xs"

section \<open>Double-precision arithmetic\<close>

text \<open>
  A number is a double, and a double is the rational number it denotes. The result of
  an arithmetic operation is the exact result rounded to the nearest number with a
  significand of 53 bits, the one with the even significand when two are equally near.
  \<open>ilog2 x\<close> is the exponent of the power of 2 at or below a positive \<open>x\<close>. The
  exponent is not bounded here: the numbers rounded below, differences of time values
  and their quotients by 60000, are zero or far inside the range of the normal doubles.
\<close>

definition ilog2 :: "rat \<Rightarrow> int" where
  "ilog2 x =
     (case quotient_of x of (p, q) \<Rightarrow>
        (let k = bitlen p - bitlen q in if 2 powi k \<le> x then k else k - 1))"

definition round_half_even :: "rat \<Rightarrow> int" where
  "round_half_even x =
     (let f = \<lfloor>x\<rfloor>; r = x - of_int f
      in if r < 1 / 2 then f else if 1 / 2 < r then f + 1 else if even f then f else f + 1)"

definition round53_pos :: "rat \<Rightarrow> rat" where
  "round53_pos x =
     (let e = ilog2 x - 52 in of_int (round_half_even (x / 2 powi e)) * 2 powi e)"

definition round53 :: "rat \<Rightarrow> rat" where
  "round53 x = (if x = 0 then 0 else if 0 < x then round53_pos x else - round53_pos (- x))"

section \<open>Segmenter\<close>

text \<open>
  \<open>isTimedOut\<close>: the time values of two valid dates are integers of at most
  8640000000000000 in magnitude, which are doubles; their difference is rounded, and so
  is its quotient by \<open>1000 * 60\<close>. With an invalid date the difference is \<open>NaN\<close> and
  the comparison is false.
\<close>

definition isTimedOut :: "int option \<Rightarrow> int option \<Rightarrow> rat \<Rightarrow> bool" where
  "isTimedOut lastTime currentTime gapMinutes =
     (case (lastTime, currentTime) of
        (Some l, Some c) \<Rightarrow>
          (let diffMinutes = round53 (round53 (of_int (c - l)) / (1000 * 60))
           in diffMinutes > gapMinutes)
      | _ \<Rightarrow> False)"

definition hasSectionMarker :: "string option \<Rightarrow> string list \<Rightarrow> bool" where
  "hasSectionMarker content' markers =
     (case content' of
        None \<Rightarrow> False
      | Some c \<Rightarrow>
          if c = [] then False
          else (let lowerContent = toLowerCase c
                in list_ex (\<lambda>marker. includes_str lowerContent (toLowerCase marker)) markers))"

definition or_empty :: "string option \<Rightarrow> string option" where
  "or_empty v = (if truthy_string v then v else Some [])"

definition hasTopicChange :: "message \<Rightarrow> message \<Rightarrow> bool" where
  "hasTopicChange prevMessage currentMessage =
     (let prevTopic = detectTopic (or_empty (content prevMessage));
          currentTopic = detectTopic (or_empty (content currentMessage))
      in prevTopic \<noteq> currentTopic \<and> prevTopic \<noteq> [] \<and> currentTopic \<noteq> [])"

text \<open>
  \<open>extractTitle(content)\<close>. Capture group 1 takes part in every match of the two
  expressions (lemma \<open>regex_exec_captures\<close> below), so the branches for a match
  without the group are never taken.
\<close>

definition extractTitle :: "string option \<Rightarrow> string option" where
  "extractTitle content' =
     (case content' of
        None \<Rightarrow> None
      | Some c \<Rightarrow>
          if c = [] then None
          else
            (case regex_exec headerRegex c of
               Some (before, after, Some g) \<Rightarrow> Some (trim g)
             | Some (before, after, None) \<Rightarrow> None
             | None \<Rightarrow>
                 (case regex_exec sectionRegex c of
                    Some (before, after, Some g) \<Rightarrow> Some (trim g)
                  | Some (before, after, None) \<Rightarrow> None
                  | None \<Rightarrow>
                      (let firstLine = trim (case split c [CHR 0x0A] of [] \<Rightarrow> [] | l # ls \<Rightarrow> l)
                       in if length firstLine < 100 then Some firstLine else None))))"

definition extractParticipants_iter :: "string list \<Rightarrow> message \<Rightarrow> string list" where
  "extractParticipants_iter participants' msg =
     (let p1 = (case author msg of
                  None \<Rightarrow> participants'
                | Some a \<Rightarrow> if a = [] then participants' else set_add participants' a)
      in (case user msg of
            None \<Rightarrow> p1
          | Some u \<Rightarrow> if u = [] then p1 else set_add p1 u))"

definition extractParticipants :: "message list \<Rightarrow> string list" where
  "extractParticipants msgs = foldl extractParticipants_iter [] msgs"

record detect_options =
  timeGap :: "rat option"
  sectionMarkers :: "string list option"
  detectTopicChanges :: "bool option"

definition default_sectionMarkers :: "string list" where
  "default_sectionMarkers = [''section:'', ''topic:'', ''discuss:'', ''new topic'', ''---'', ''==='']"

definition timeGap_of :: "detect_options \<Rightarrow> rat" where
  "timeGap_of options = (case timeGap options of None \<Rightarrow> 30 | Some g \<Rightarrow> g)"

definition sectionMarkers_of :: "detect_options \<Rightarrow> string list" where
  "sectionMarkers_of options =
     (case sectionMarkers options of None \<Rightarrow> default_sectionMarkers | Some ms \<Rightarrow> ms)"

definition detectTopicChanges_of :: "detect_options \<Rightarrow> bool" where
  "detectTopicChanges_of options =
     (case detectTopicChanges options of None \<Rightarrow> True | Some b \<Rightarrow> b)"

text \<open>The variables of the loop of \<open>detectSections\<close>.\<close>

record loop_state =
  sections :: "message list conversationSection list"
  currentSection :: "message list conversationSection option"
  sectionId :: nat

text \<open>\<open>new Date(message.timestamp || Date.now())\<close> in iteration \<open>i\<close>.\<close>

definition message_time :: "env \<Rightarrow> nat \<Rightarrow> message \<Rightarrow> int option" where
  "message_time env i message' =
     new_Date env
       (if truthy_timestamp (timestamp message') then timestamp message'
        else TsNumber (clock env i))"

definition shouldNewSection :: "env \<Rightarrow> detect_options \<Rightarrow> message list \<Rightarrow> loop_state \<Rightarrow> nat \<Rightarrow> bool" where
  "shouldNewSection env options msgs st i =
     (case currentSection st of
        None \<Rightarrow> True
      | Some cur \<Rightarrow>
          isTimedOut (endTime cur) (message_time env i (msgs ! i)) (timeGap_of options) \<or>
          hasSectionMarker (content (msgs ! i)) (sectionMarkers_of options) \<or>
          (detectTopicChanges_of options \<and> i > 0 \<and> hasTopicChange (msgs ! (i - 1)) (msgs ! i)))"

text \<open>
  The section a boundary opens. The counter is incremented while the object literal is
  evaluated: \<open>id\<close> is its old value, the fallback title shows its new one.
\<close>

definition new_section :: "nat \<Rightarrow> message \<Rightarrow> int option \<Rightarrow> message list conversationSection" where
  "new_section sectionId' message' timestamp' =
     \<lparr>id_sec = sectionId',
      title = (case extractTitle (content message') of
                 None \<Rightarrow> ''Section '' @ number_to_string (Suc sectionId')
               | Some t \<Rightarrow> if t = [] then ''Section '' @ number_to_string (Suc sectionId') else t),
      messages = [message'],
      startTime = timestamp',
      endTime = timestamp',
      topic = detectTopic (content message'),
      participants = extractParticipants [message']\<rparr>"

text \<open>
  The body of the loop, for \<open>i < length msgs\<close>. When no boundary is found a section
  is open, so the last branch is never taken.
\<close>

definition detectSections_iter :: "env \<Rightarrow> detect_options \<Rightarrow> message list \<Rightarrow> loop_state \<Rightarrow> nat \<Rightarrow> loop_state" where
  "detectSections_iter env options msgs st i =
     (let message' = msgs ! i;
          timestamp' = message_time env i message'
      in if shouldNewSection env options msgs st i
         then \<lparr>sections = (case currentSection st of
                             None \<Rightarrow> sections st
                           | Some cur \<Rightarrow> sections st @ [cur]),
               currentSection = Some (new_section (sectionId st) message' timestamp'),
               sectionId = Suc (sectionId st)\<rparr>
         else (case currentSection st of
                 Some cur \<Rightarrow>
                   st\<lparr>currentSection :=
                        Some (cur\<lparr>messages := messages cur @ [message'],
                                  endTime := timestamp',
                                  participants := extractParticipants (messages cur @ [message'])\<rparr>)\<rparr>
               | None \<Rightarrow> st))"

definition detectSections_loop :: "env \<Rightarrow> detect_options \<Rightarrow> message list \<Rightarrow> nat \<Rightarrow> loop_state" where
  "detectSections_loop env options msgs n =
     foldl (detectSections_iter env options msgs)
       \<lparr>sections = [], currentSection = None, sectionId = 0\<rparr> [0..<n]"

definition detectSections :: "env \<Rightarrow> detect_options \<Rightarrow> message list \<Rightarrow> message list conversationSection list" where
  "detectSections env options msgs =
     (if msgs = [] then []
      else (let st = detectSections_loop env options msgs (length msgs)
            in (case currentSection st of
                  None \<Rightarrow> sections st
                | Some cur \<Rightarrow> sections st @ [cur])))"

section \<open>Raw-text parser\<close>

datatype js_error = TypeError

record parse_options =
  delimiter :: "string option"
  authorPattern :: "regex option"
  preserveFormatting :: "bool option"

definition delimiter_of :: "parse_options \<Rightarrow> string" where
  "delimiter_of options = (case delimiter options of None \<Rightarrow> [CHR 0x0A, CHR 0x0A] | Some d \<Rightarrow> d)"

definition authorPattern_of :: "parse_options \<Rightarrow> regex" where
  "authorPattern_of options =
     (case authorPattern options of None \<Rightarrow> default_authorPattern | Some r \<Rightarrow> r)"

definition preserveFormatting_of :: "parse_options \<Rightarrow> bool" where
  "preserveFormatting_of options =
     (case preserveFormatting options of None \<Rightarrow> True | Some b \<Rightarrow> b)"

text \<open>\<open>text.split(delimiter).filter((s) => s.trim())\<close>\<close>

definition segments_of :: "parse_options \<Rightarrow> string \<Rightarrow> string list" where
  "segments_of options text' =
     filter (\<lambda>s. trim s \<noteq> []) (split text' (delimiter_of options))"

text \<open>
  The message built from the segment at \<open>index\<close>. Reading \<open>authorMatch[1].trim()\<close>
  raises a \<open>TypeError\<close> when the pattern matched without its group 1.
\<close>

definition segment_message :: "env \<Rightarrow> parse_options \<Rightarrow> nat \<Rightarrow> string \<Rightarrow> js_error + message" where
  "segment_message env options index segment =
     (case regex_exec (authorPattern_of options) segment of
        None \<Rightarrow>
          Inr \<lparr>id_msg = Some index,
               timestamp = TsDate (Some (clock env index)),
               content = Some (trim segment),
               author = Some ''Unknown'',
               user = None,
               originalContent = (if preserveFormatting_of options then Some segment else None)\<rparr>
      | Some (before, after, g) \<Rightarrow>
          (case g of
             None \<Rightarrow> Inl TypeError
           | Some a \<Rightarrow>
               Inr \<lparr>id_msg = Some index,
                    timestamp = TsDate (Some (clock env index)),
                    content = Some (trim (before @ after)),
                    author = Some (trim a),
                    user = None,
                    originalContent = (if preserveFormatting_of options then Some segment else None)\<rparr>))"

text \<open>The callback of \<open>segments.forEach\<close>; an exception ends the loop.\<close>

definition parse_iter :: "env \<Rightarrow> parse_options \<Rightarrow> js_error + message list \<Rightarrow> nat \<times> string \<Rightarrow> js_error + message list" where
  "parse_iter env options acc entry =
     (case acc of
        Inl e \<Rightarrow> Inl e
      | Inr messages' \<Rightarrow>
          (case entry of (index, segment) \<Rightarrow>
             (case segment_message env options index segment of
                Inl e \<Rightarrow> Inl e
              | Inr message' \<Rightarrow>
                  if truthy_string (content message') then Inr (messages' @ [message'])
                  else Inr messages')))"

definition parseRawConversation :: "env \<Rightarrow> string \<Rightarrow> parse_options \<Rightarrow> js_error + message list" where
  "parseRawConversation env text' options =
     (if text' = [] then Inr []
      else (let segments = segments_of options text'
            in foldl (parse_iter env options) (Inr []) (zip [0..<length segments] segments)))"

section \<open>Section merger\<close>

text \<open>
  \<open>mergeSimilarSections\<close> writes to the section objects and the \<open>messages\<close> arrays
  its caller supplies, so these live in a store: a section object at each address,
  whose \<open>messages\<close> property is the address of an array. The \<open>sections\<close> array is a
  list of addresses of section objects.
\<close>

type_synonym addr = nat

record store =
  sec_of :: "addr \<Rightarrow> addr conversationSection"
  arr_of :: "addr \<Rightarrow> message list"

definition threshold_of :: "rat option \<Rightarrow> rat" where
  "threshold_of threshold = (case threshold of None \<Rightarrow> 7 / 10 | Some t \<Rightarrow> t)"

text \<open>
  The body of the loop: \<open>merged\<close> and the store before, the address of
  \<open>sections[i]\<close>. The three assignments follow the source's order, each reading the
  store the one before has left. \<open>merged\<close> is never empty here.
\<close>

definition merge_iter :: "rat \<Rightarrow> addr list \<times> store \<Rightarrow> addr \<Rightarrow> addr list \<times> store" where
  "merge_iter threshold' acc current =
     (case acc of (merged, st) \<Rightarrow>
        (let lastSection = last merged;
             similarity = (if topic (sec_of st lastSection) = topic (sec_of st current)
                           then 1 else 0 :: rat)
         in if similarity \<ge> threshold'
            then
              (let st1 = st\<lparr>arr_of := (arr_of st)
                          (messages (sec_of st lastSection) :=
                             arr_of st (messages (sec_of st lastSection)) @
                             arr_of st (messages (sec_of st current)))\<rparr>;
                   st2 = st1\<lparr>sec_of := (sec_of st1)
                          (lastSection := (sec_of st1 lastSection)
                             \<lparr>endTime := endTime (sec_of st1 current)\<rparr>)\<rparr>;
                   st3 = st2\<lparr>sec_of := (sec_of st2)
                          (lastSection := (sec_of st2 lastSection)
                             \<lparr>participants :=
                                new_Set (participants (sec_of st2 lastSection) @
                                         participants (sec_of st2 current))\<rparr>)\<rparr>
               in (merged, st3))
            else (merged @ [current], st)))"

text \<open>
  \<open>mergeSimilarSections(sections, threshold)\<close> returns the resulting array and the
  store it leaves. With fewer than two sections the argument itself is returned.
\<close>

definition mergeSimilarSections :: "store \<Rightarrow> addr list \<Rightarrow> rat option \<Rightarrow> addr list \<times> store" where
  "mergeSimilarSections st sections' threshold =
     (case sections' of
        first # second # rest \<Rightarrow>
          foldl (merge_iter (threshold_of threshold)) ([first], st) (second # rest)
      | _ \<Rightarrow> (sections', st))"

section \<open>The classifier as the specification words it\<close>

text \<open>
  The score of a topic is the number of its keywords, each counted once, that occur as
  substrings of the lower-cased content. The result is the first topic, in the order of
  the table, whose score is the highest, and \<open>general\<close> when the highest score is 0
  or the content is empty or absent.
\<close>

definition topic_scores :: "string \<Rightarrow> (string \<times> nat) list" where
  "topic_scores lowered =
     map (\<lambda>(t, ks). (t, length (filter (\<lambda>k. sublist k lowered) (remdups ks)))) topics"

definition detectTopic_spec :: "string option \<Rightarrow> string" where
  "detectTopic_spec content' =
     (case content' of
        None \<Rightarrow> ''general''
      | Some c \<Rightarrow>
          if c = [] then ''general''
          else (let scores = topic_scores (toLowerCase c);
                    best = Max (set (map snd scores))
                in if best = 0 then ''general''
                   else (case find (\<lambda>(t, n). n = best) scores of
                           Some (t, n) \<Rightarrow> t
                         | None \<Rightarrow> ''general'')))"

definition keep_best :: "nat \<times> string \<Rightarrow> string \<times> nat \<Rightarrow> nat \<times> string" where
  "keep_best st p = (if snd p > fst st then (snd p, fst p) else st)"

section \<open>The segmentation, message by message\<close>

text \<open>
  The sections the loop of \<open>detectSections\<close> holds: the closed ones and the open one.
\<close>

definition open_sections :: "loop_state \<Rightarrow> message list conversationSection list" where
  "open_sections st =
     sections st @ (case currentSection st of None \<Rightarrow> [] | Some cur \<Rightarrow> [cur])"

text \<open>
  The boundary triggers read on the messages alone: message \<open>i\<close> opens a section when
  it is the first one, when the time from message \<open>i - 1\<close> to it exceeds the gap, when
  it holds a marker, or when the topic changes between the two.
\<close>

definition boundary :: "env \<Rightarrow> detect_options \<Rightarrow> message list \<Rightarrow> nat \<Rightarrow> bool" where
  "boundary env options msgs i =
     (i = 0 \<or>
      isTimedOut (message_time env (i - 1) (msgs ! (i - 1))) (message_time env i (msgs ! i))
        (timeGap_of options) \<or>
      hasSectionMarker (content (msgs ! i)) (sectionMarkers_of options) \<or>
      (detectTopicChanges_of options \<and> hasTopicChange (msgs ! (i - 1)) (msgs ! i)))"

definition extend_section :: "message list conversationSection \<Rightarrow> message \<Rightarrow> int option \<Rightarrow> message list conversationSection" where
  "extend_section cur m t =
     cur\<lparr>messages := messages cur @ [m], endTime := t,
         participants := extractParticipants (messages cur @ [m])\<rparr>"

fun segmentation :: "env \<Rightarrow> detect_options \<Rightarrow> message list \<Rightarrow> nat \<Rightarrow> message list conversationSection list" where
  "segmentation env options msgs 0 = []"
| "segmentation env options msgs (Suc k) =
     (let secs = segmentation env options msgs k
      in if boundary env options msgs k
         then secs @ [new_section (length secs) (msgs ! k) (message_time env k (msgs ! k))]
         else butlast secs @ [extend_section (last secs) (msgs ! k) (message_time env k (msgs ! k))])"

text \<open>
  The positions in the input at which the sections of a list begin, when the sections
  are laid end to end from position \<open>b\<close>.
\<close>

fun section_starts_from :: "nat \<Rightarrow> message list conversationSection list \<Rightarrow> nat list" where
  "section_starts_from b [] = []"
| "section_starts_from b (s # ss) = b # section_starts_from (b + length (messages s)) ss"

definition section_starts :: "message list conversationSection list \<Rightarrow> nat list" where
  "section_starts secs = section_starts_from 0 secs"

definition section_title :: "nat \<Rightarrow> message \<Rightarrow> string" where
  "section_title n m =
     (case extractTitle (content m) of
        None \<Rightarrow> ''Section '' @ number_to_string (Suc n)
      | Some t \<Rightarrow> if t = [] then ''Section '' @ number_to_string (Suc n) else t)"

text \<open>
  A section that begins at position \<open>b\<close> of the input: its messages are the input's
  from \<open>b\<close> on, and its fields are derived from them.
\<close>

definition section_spans :: "env \<Rightarrow> message list \<Rightarrow> nat \<Rightarrow> message list conversationSection \<Rightarrow> bool" where
  "section_spans env msgs b s =
     (messages s \<noteq> [] \<and>
      b + length (messages s) \<le> length msgs \<and>
      messages s = take (length (messages s)) (drop b msgs) \<and>
      startTime s = message_time env b (msgs ! b) \<and>
      endTime s = message_time env (b + length (messages s) - 1)
                    (msgs ! (b + length (messages s) - 1)) \<and>
      title s = section_title (id_sec s) (msgs ! b) \<and>
      topic s = detectTopic (content (msgs ! b)) \<and>
      participants s = extractParticipants (messages s))"

fun sections_span :: "env \<Rightarrow> message list \<Rightarrow> nat \<Rightarrow> message list conversationSection list \<Rightarrow> bool" where
  "sections_span env msgs b [] = True"
| "sections_span env msgs b (s # ss) =
     (section_spans env msgs b s \<and> sections_span env msgs (b + length (messages s)) ss)"

text \<open>
  \<open>a >= b\<close> on two dates compares their time values, and is false when either is
  invalid.
\<close>

definition date_ge :: "int option \<Rightarrow> int option \<Rightarrow> bool" where
  "date_ge a b = (case (a, b) of (Some x, Some y) \<Rightarrow> x \<ge> y | _ \<Rightarrow> False)"

text \<open>The time \<open>detectSections\<close> gives each message of its input.\<close>

definition message_times :: "env \<Rightarrow> message list \<Rightarrow> int option list" where
  "message_times env msgs = map (\<lambda>i. message_time env i (msgs ! i)) [0..<length msgs]"

section \<open>Example inputs\<close>

definition example_env :: env where
  "example_env = \<lparr>date_parse = (\<lambda>s. None), clock = (\<lambda>i. 5000 + int i)\<rparr>"

definition default_options :: detect_options where
  "default_options = \<lparr>timeGap = None, sectionMarkers = None, detectTopicChanges = None\<rparr>"

definition plain_message :: "js_timestamp \<Rightarrow> string option \<Rightarrow> message" where
  "plain_message t c =
     \<lparr>id_msg = None, timestamp = t, content = c, author = None, user = None,
      originalContent = None\<rparr>"

text \<open>Two messages, the second 166 minutes earlier than the first.\<close>

definition out_of_order_messages :: "message list" where
  "out_of_order_messages =
     [plain_message (TsNumber 10000000) (Some ''hi''), plain_message (TsNumber 1) (Some ''there'')]"

text \<open>Three messages: one second between the first two, an hour before the third.\<close>

definition gap_messages :: "message list" where
  "gap_messages =
     [plain_message (TsNumber 1000) (Some ''hi''),
      plain_message (TsNumber 2000) (Some ''there''),
      plain_message (TsNumber 3600000) (Some ''again'')]"

text \<open>A message without timestamp or content, and a message stamped with the epoch.\<close>

definition untitled_messages :: "message list" where
  "untitled_messages = [plain_message TsUndefined None]"

definition epoch_messages :: "message list" where
  "epoch_messages = [plain_message (TsNumber 0) (Some ''hi'')]"

section \<open>Capture groups\<close>

text \<open>
  A sufficient condition, read off the expression, for capture group 1 to take part in
  every match.
\<close>

fun always_captures :: "regex \<Rightarrow> bool" where
  "always_captures (Capture a) = True"
| "always_captures (Cat a b) = (always_captures a \<or> always_captures b)"
| "always_captures (Alt a b) = (always_captures a \<and> always_captures b)"
| "always_captures (Plus a) = always_captures a"
| "always_captures (PlusLazy a) = always_captures a"
| "always_captures r = False"

definition captured :: "mstate \<Rightarrow> bool" where
  "captured st = (snd (snd st) \<noteq> None)"

section \<open>What the parser keeps\<close>

text \<open>
  The content of the message built from a segment: the segment without the first match
  of the author pattern, trimmed.
\<close>

definition cleaned_content :: "parse_options \<Rightarrow> string \<Rightarrow> string" where
  "cleaned_content options segment =
     (case regex_exec (authorPattern_of options) segment of
        None \<Rightarrow> trim segment
      | Some (before, after, g) \<Rightarrow> trim (before @ after))"

text \<open>
  The positions, in the array of segments, of the segments whose cleaned content is not
  empty.
\<close>

definition kept_indices :: "parse_options \<Rightarrow> string \<Rightarrow> nat list" where
  "kept_indices options text' =
     filter (\<lambda>i. cleaned_content options (segments_of options text' ! i) \<noteq> [])
       [0..<length (segments_of options text')]"

definition default_parse_options :: parse_options where
  "default_parse_options = \<lparr>delimiter = None, authorPattern = None, preserveFormatting = None\<rparr>"

text \<open>Three segments; the second is an author prefix with nothing after it.\<close>

definition gapped_text :: string where
  "gapped_text = ''Alice: hi'' @ [CHR 0x0A, CHR 0x0A] @ ''Bob:'' @ [CHR 0x0A, CHR 0x0A] @ ''Carol: yo''"

text \<open>
  Four pieces: the second is a no-break space alone, the third an author prefix followed
  by a no-break space.
\<close>

definition no_break_space_text :: string where
  "no_break_space_text =
     ''Alice: hi'' @ [CHR 0x0A, CHR 0x0A, CHR 0xA0, CHR 0x0A, CHR 0x0A] @ ''Bob:'' @
     [CHR 0xA0, CHR 0x0A, CHR 0x0A] @ ''Carol: yo''"

text \<open>A message whose content is a no-break space alone.\<close>

definition no_break_space_messages :: "message list" where
  "no_break_space_messages = [plain_message TsUndefined (Some [CHR 0xA0])]"

section \<open>What a merge changes\<close>

text \<open>The properties of a section object that no merge assigns.\<close>

definition same_identity :: "addr conversationSection \<Rightarrow> addr conversationSection \<Rightarrow> bool" where
  "same_identity s s' =
     (id_sec s' = id_sec s \<and> title s' = title s \<and> topic s' = topic s \<and>
      startTime s' = startTime s \<and> messages s' = messages s)"

text \<open>
  The section at \<open>survivor\<close> in the store \<open>st'\<close> is the fusion of the sections at
  \<open>survivor\<close> and \<open>absorbed\<close> in the store \<open>st\<close>.
\<close>

definition fused :: "store \<Rightarrow> store \<Rightarrow> addr \<Rightarrow> addr \<Rightarrow> bool" where
  "fused st st' survivor absorbed =
     (arr_of st' (messages (sec_of st' survivor)) =
        arr_of st (messages (sec_of st survivor)) @ arr_of st (messages (sec_of st absorbed)) \<and>
      endTime (sec_of st' survivor) = endTime (sec_of st absorbed) \<and>
      set (participants (sec_of st' survivor)) =
        set (participants (sec_of st survivor)) \<union> set (participants (sec_of st absorbed)) \<and>
      distinct (participants (sec_of st' survivor)) \<and>
      same_identity (sec_of st survivor) (sec_of st' survivor))"

text \<open>
  From \<open>st\<close> to \<open>st'\<close> only section objects of \<open>out\<close> and their \<open>messages\<close>
  arrays have changed, and the arrays have only grown at their end.
\<close>

definition frame :: "store \<Rightarrow> store \<Rightarrow> addr list \<Rightarrow> bool" where
  "frame st st' out =
     ((\<forall>a. a \<notin> set out \<longrightarrow> sec_of st' a = sec_of st a) \<and>
      (\<forall>a. same_identity (sec_of st a) (sec_of st' a)) \<and>
      (\<forall>r. r \<notin> (\<lambda>a. messages (sec_of st a)) ` set out \<longrightarrow> arr_of st' r = arr_of st r) \<and>
      (\<forall>r. prefix (arr_of st r) (arr_of st' r)))"

text \<open>
  A store with three sections, at the addresses 0, 1 and 2, whose topics are
  \<open>general\<close>, \<open>general\<close> and \<open>technical\<close>; their \<open>messages\<close> arrays are at 10,
  11 and 12.
\<close>

definition example_section :: "nat \<Rightarrow> addr \<Rightarrow> int \<Rightarrow> int \<Rightarrow> string \<Rightarrow> string list \<Rightarrow> addr conversationSection" where
  "example_section n r t1 t2 tp ps =
     \<lparr>id_sec = n, title = ''Section '' @ number_to_string (Suc n), messages = r,
      startTime = Some t1, endTime = Some t2, topic = tp, participants = ps\<rparr>"

definition example_store :: store where
  "example_store =
     \<lparr>sec_of = (\<lambda>a. example_section a (a + 10) 0 0 ''general'' [])
        (0 := example_section 0 10 1000 2000 ''general'' [''alice''],
         1 := example_section 1 11 3000 9000 ''general'' [''bob'', ''alice''],
         2 := example_section 2 12 9500 9900 ''technical'' [''carol'']),
      arr_of = (\<lambda>r. [])
        (10 := [plain_message (TsNumber 1000) (Some ''hi'')],
         11 := [plain_message (TsNumber 3000) (Some ''there'')],
         12 := [plain_message (TsNumber 9500) (Some ''a bug'')])\<rparr>"

section \<open>Properties of the topic classifier\<close>

lemma includes_str_sublist: "includes_str s k = sublist k s"
  by (induction s) (auto simp: sublist_Cons_right)

lemma detectTopic_iter_keep_best:
  "detectTopic_iter lc st (t, ks) = keep_best st (t, length (filter (\<lambda>k. sublist k lc) ks))"
  by (cases st) (simp add: detectTopic_iter_def keep_best_def includes_str_sublist Let_def)

lemma keep_best_pair: "keep_best (m, d) (t, n) = (if n > m then (n, t) else (m, d))"
  by (simp add: keep_best_def)

lemma foldl_keep_best_le:
  "\<forall>p\<in>set ps. snd p \<le> m \<Longrightarrow> foldl keep_best (m, d) ps = (m, d)"
  by (induction ps) (auto simp: keep_best_pair)

text \<open>
  When some score exceeds the running maximum, the loop ends with the highest score
  and the first topic that reaches it.
\<close>

lemma foldl_keep_best:
  "\<not> (\<forall>p\<in>set ps. snd p \<le> m) \<Longrightarrow>
   \<exists>t. find (\<lambda>(t, n). n = Max (set (map snd ps))) ps = Some (t, Max (set (map snd ps))) \<and>
       foldl keep_best (m, d) ps = (Max (set (map snd ps)), t)"
proof (induction ps arbitrary: m d)
  case Nil
  then show ?case by simp
next
  case (Cons p ps)
  obtain t n where p: "p = (t, n)" by (cases p)
  show ?case
  proof (cases "\<forall>q\<in>set ps. snd q \<le> max m n")
    case True
    with Cons.prems p have nm: "n > m" by auto
    with True have le: "\<forall>q\<in>set ps. snd q \<le> n" by auto
    then have mx: "Max (set (map snd (p # ps))) = n"
      using p by (auto intro!: Max_eqI)
    show ?thesis
      using nm le mx p by (simp add: keep_best_pair foldl_keep_best_le del: list.map set_map)
  next
    case False
    then obtain q where q: "q \<in> set ps" "snd q > max m n"
      using not_le by blast
    then have ne: "set (map snd ps) \<noteq> {}" by auto
    have big: "Max (set (map snd ps)) > max m n"
      using q by (metis List.finite_set Max_ge image_eqI less_le_trans linorder_not_le list.set_map not_less_iff_gr_or_eq order_less_imp_le)
    then have mx: "Max (set (map snd (p # ps))) = Max (set (map snd ps))"
      using p ne by (auto simp: max_def split: if_splits)
    have step: "keep_best (m, d) p = (max m n, if n > m then t else d)"
      using p by (auto simp: keep_best_pair)
    from False Cons.IH[of "max m n" "if n > m then t else d"]
    obtain t' where t': "find (\<lambda>(t, n). n = Max (set (map snd ps))) ps = Some (t', Max (set (map snd ps)))"
        "foldl keep_best (max m n, if n > m then t else d) ps = (Max (set (map snd ps)), t')"
      by blast
    have "n \<noteq> Max (set (map snd ps))" using big by auto
    then show ?thesis
      using t' step mx p by (simp del: list.map set_map)
  qed
qed

lemma topics_distinct: "\<forall>(t, ks)\<in>set topics. distinct ks"
  by (simp add: topics_def)

lemma foldl_detectTopic_iter:
  "\<forall>(t, ks)\<in>set tps. distinct ks \<Longrightarrow>
   foldl (detectTopic_iter lc) st tps =
   foldl keep_best st (map (\<lambda>(t, ks). (t, length (filter (\<lambda>k. sublist k lc) (remdups ks)))) tps)"
  by (induction tps arbitrary: st) (auto simp: detectTopic_iter_keep_best distinct_remdups_id)

text \<open>
  C5. For every content, present or absent, \<open>detectTopic\<close> returns what the
  specification describes: each of the five topics is scored by the number of its
  keywords, each counted once, that are substrings of the lower-cased content; the
  result is the topic with the highest score, the first in the order technical,
  question, discussion, planning, feedback among equal scores; it is \<open>general\<close> when
  the highest score is 0 and when the content is empty or absent.
\<close>

theorem detectTopic_refines_spec: "detectTopic content' = detectTopic_spec content'"
proof (cases content')
  case None
  then show ?thesis by (simp add: detectTopic_def detectTopic_spec_def)
next
  case (Some c)
  show ?thesis
  proof (cases "c = []")
    case True
    with Some show ?thesis by (simp add: detectTopic_def detectTopic_spec_def)
  next
    case False
    let ?ps = "topic_scores (toLowerCase c)"
    have run: "foldl (detectTopic_iter (toLowerCase c)) (0, ''general'') topics =
               foldl keep_best (0, ''general'') ?ps"
      unfolding topic_scores_def by (rule foldl_detectTopic_iter[OF topics_distinct])
    have ne: "set (map snd ?ps) \<noteq> {}" by (simp add: topic_scores_def topics_def)
    show ?thesis
    proof (cases "\<forall>p\<in>set ?ps. snd p \<le> 0")
      case True
      then have "Max (set (map snd ?ps)) = 0"
        using ne by (metis (no_types, lifting) List.finite_set Max_in imageE le_zero_eq list.set_map)
      with True Some False run show ?thesis
        by (simp add: detectTopic_def detectTopic_spec_def Let_def foldl_keep_best_le del: set_map)
    next
      case nz: False
      from foldl_keep_best[OF nz, of "''general''"] obtain t where
        t: "find (\<lambda>(t, n). n = Max (set (map snd ?ps))) ?ps = Some (t, Max (set (map snd ?ps)))"
           "foldl keep_best (0, ''general'') ?ps = (Max (set (map snd ?ps)), t)"
        by blast
      from nz obtain p where "p \<in> set ?ps" "snd p > 0" by auto
      then have "Max (set (map snd ?ps)) > 0"
        by (metis List.finite_set Max_ge image_eqI less_le_trans list.set_map)
      with t Some False run show ?thesis
        by (simp add: detectTopic_def detectTopic_spec_def Let_def del: set_map)
    qed
  qed
qed

text \<open>
  The two examples of the specification: two keywords of \<open>technical\<close> against none
  elsewhere, and a content without any keyword.
\<close>

theorem detectTopic_refines_spec_witness:
  "detectTopic_spec (Some ''I found a bug in the function'') = ''technical'' \<and>
   detectTopic_spec (Some ''hello there'') = ''general'' \<and>
   detectTopic_spec None = ''general''"
  unfolding detectTopic_refines_spec [symmetric] by code_simp

section \<open>Properties of the double-precision arithmetic\<close>

text \<open>
  Rounding is monotone, and it leaves alone every number \<open>n * 2 ^ j\<close> whose \<open>n\<close> fits
  in 53 bits: the integers below \<open>2 ^ 53\<close> among them.
\<close>

lemma powi_pos: "0 < (2::rat) powi e"
  by (simp add: power_int_def)

lemma powi_nat: "0 \<le> e \<Longrightarrow> (2::rat) powi e = 2 ^ nat e"
  by (simp add: power_int_def)

lemma ilog2_bounds:
  assumes "0 < x"
  shows "2 powi (ilog2 x) \<le> x" and "x < 2 powi (ilog2 x + 1)"
proof -
  obtain p q where pq: "quotient_of x = (p, q)" by (cases "quotient_of x")
  then have q: "0 < q" and x: "x = of_int p / of_int q"
    by (auto dest: quotient_of_denom_pos quotient_of_div)
  with assms have p: "0 < p" by (simp add: zero_less_divide_iff)
  let ?bp = "bitlen p" and ?bq = "bitlen q"
  from bitlen_bounds[OF p] have bp: "2 ^ nat (?bp - 1) \<le> p" "p < 2 ^ nat ?bp" by auto
  from bitlen_bounds[OF q] have bq: "2 ^ nat (?bq - 1) \<le> q" "q < 2 ^ nat ?bq" by auto
  have bp1: "1 \<le> ?bp" using p by (simp add: bitlen_alt_def)
  have bq1: "1 \<le> ?bq" using q by (simp add: bitlen_alt_def)
  have P1: "(2::rat) powi (?bp - 1) \<le> of_int p"
  proof -
    have "(of_int (2 ^ nat (?bp - 1)) :: rat) \<le> of_int p" using bp(1) by (simp only: of_int_le_iff)
    then show ?thesis using bp1 by (simp add: powi_nat)
  qed
  have P2: "of_int p < (2::rat) powi ?bp"
  proof -
    have "(of_int p :: rat) < of_int (2 ^ nat ?bp)" using bp(2) by (simp only: of_int_less_iff)
    then show ?thesis using bp1 by (simp add: powi_nat)
  qed
  have Q1: "(2::rat) powi (?bq - 1) \<le> of_int q"
  proof -
    have "(of_int (2 ^ nat (?bq - 1)) :: rat) \<le> of_int q" using bq(1) by (simp only: of_int_le_iff)
    then show ?thesis using bq1 by (simp add: powi_nat)
  qed
  have Q2: "of_int q < (2::rat) powi ?bq"
  proof -
    have "(of_int q :: rat) < of_int (2 ^ nat ?bq)" using bq(2) by (simp only: of_int_less_iff)
    then show ?thesis using bq1 by (simp add: powi_nat)
  qed
  have qpos: "(0::rat) < of_int q" using q by simp
  have ppos: "(0::rat) < of_int p" using p by simp
  let ?k = "?bp - ?bq"
  have up: "x < 2 powi (?k + 1)"
  proof -
    have "x * of_int q = of_int p" using x qpos by simp
    also have "\<dots> < 2 powi ?bp" by (rule P2)
    also have "\<dots> = 2 powi (?k + 1) * 2 powi (?bq - 1)"
      by (simp add: power_int_add[symmetric])
    also have "\<dots> \<le> 2 powi (?k + 1) * of_int q"
      using Q1 powi_pos[of "?k + 1"] by (simp add: mult_left_mono)
    finally show ?thesis using qpos by simp
  qed
  have lo: "2 powi (?k - 1) \<le> x"
  proof -
    have "(2::rat) powi (?k - 1) * of_int q \<le> 2 powi (?k - 1) * 2 powi ?bq"
      using Q2 powi_pos[of "?k - 1"] by (simp add: mult_left_mono)
    also have "\<dots> = 2 powi (?bp - 1)" by (simp add: power_int_add[symmetric])
    also have "\<dots> \<le> of_int p" by (rule P1)
    also have "\<dots> = x * of_int q" using x qpos by simp
    finally show ?thesis using qpos by simp
  qed
  have il: "ilog2 x = (if 2 powi ?k \<le> x then ?k else ?k - 1)"
    by (simp add: ilog2_def pq Let_def)
  show "2 powi (ilog2 x) \<le> x" using il lo by auto
  show "x < 2 powi (ilog2 x + 1)" using il up by (auto simp: not_le)
qed


lemma powi_less_imp_less: "(2::rat) powi a < 2 powi b \<Longrightarrow> a < b"
proof (rule ccontr)
  assume lt: "(2::rat) powi a < 2 powi b" and "\<not> a < b"
  then have "b \<le> a" by simp
  then have "(2::rat) powi b \<le> 2 powi a" by (rule power_int_increasing) simp
  with lt show False by simp
qed

lemma powi_split: "(2::rat) powi a = 2 ^ k * 2 powi (a - int k)"
proof -
  have "(2::rat) powi (int k + (a - int k)) = 2 powi (int k) * 2 powi (a - int k)"
    by (rule power_int_add) simp
  then show ?thesis by simp
qed

lemma powi_scale:
  "x > 0 \<Longrightarrow> 2 ^ 52 \<le> x / 2 powi (ilog2 x - 52) \<and> x / 2 powi (ilog2 x - 52) < 2 ^ 53"
proof -
  assume x: "x > 0"
  let ?e = "ilog2 x - 52"
  note b = ilog2_bounds[OF x]
  have a: "(2::rat) powi (ilog2 x) = 2 ^ 52 * 2 powi ?e"
    using powi_split[of "ilog2 x" 52] by simp
  have c: "(2::rat) powi (ilog2 x + 1) = 2 ^ 53 * 2 powi ?e"
    using powi_split[of "ilog2 x + 1" 53] by simp
  from b a c powi_pos[of ?e] show ?thesis
    by (simp add: pos_le_divide_eq pos_divide_less_eq)
qed

lemma round_half_even_of_int: "round_half_even (of_int z) = z"
  by (simp add: round_half_even_def)

lemma round_half_even_range:
  "\<lfloor>x\<rfloor> \<le> round_half_even x" "round_half_even x \<le> \<lfloor>x\<rfloor> + 1"
  by (simp_all add: round_half_even_def Let_def)

lemma round_half_even_mono:
  assumes "x \<le> y"
  shows "round_half_even x \<le> round_half_even y"
proof (cases "\<lfloor>x\<rfloor> < \<lfloor>y\<rfloor>")
  case True
  then show ?thesis
    using round_half_even_range(2)[of x] round_half_even_range(1)[of y] by linarith
next
  case False
  with assms have "\<lfloor>x\<rfloor> = \<lfloor>y\<rfloor>" by (simp add: floor_mono order_antisym not_less)
  with assms show ?thesis by (auto simp: round_half_even_def Let_def)
qed

lemma round_half_even_ge: "of_int z \<le> x \<Longrightarrow> z \<le> round_half_even x"
  using round_half_even_mono[of "of_int z" x] by (simp add: round_half_even_of_int)

lemma round_half_even_le: "x \<le> of_int z \<Longrightarrow> round_half_even x \<le> z"
  using round_half_even_mono[of x "of_int z"] by (simp add: round_half_even_of_int)

lemma round53_pos_bounds:
  assumes "0 < x"
  shows "2 ^ 52 * 2 powi (ilog2 x - 52) \<le> round53_pos x"
    and "round53_pos x \<le> 2 ^ 53 * 2 powi (ilog2 x - 52)"
proof -
  let ?e = "ilog2 x - 52"
  let ?s = "x / 2 powi ?e"
  from powi_scale[OF assms] have s: "2 ^ 52 \<le> ?s" "?s < 2 ^ 53" by auto
  have "of_int (2 ^ 52) \<le> ?s" using s(1) by simp
  then have "(2 ^ 52 :: int) \<le> round_half_even ?s" by (rule round_half_even_ge)
  then have lo: "(2 ^ 52 :: rat) \<le> of_int (round_half_even ?s)"
    by (metis of_int_le_iff of_int_numeral of_int_power)
  have "?s \<le> of_int (2 ^ 53)" using s(2) by simp
  then have "round_half_even ?s \<le> (2 ^ 53 :: int)" by (rule round_half_even_le)
  then have hi: "of_int (round_half_even ?s) \<le> (2 ^ 53 :: rat)"
    by (metis of_int_le_iff of_int_numeral of_int_power)
  show "2 ^ 52 * 2 powi ?e \<le> round53_pos x"
    using lo powi_pos[of ?e] by (simp add: round53_pos_def Let_def mult_right_mono)
  show "round53_pos x \<le> 2 ^ 53 * 2 powi ?e"
    using hi powi_pos[of ?e] by (simp add: round53_pos_def Let_def mult_right_mono)
qed

lemma round53_pos_positive: "0 < x \<Longrightarrow> 0 < round53_pos x"
proof -
  assume x: "0 < x"
  have "(0::rat) < 2 ^ 52 * 2 powi (ilog2 x - 52)" using powi_pos[of "ilog2 x - 52"] by simp
  with round53_pos_bounds(1)[OF x] show ?thesis by linarith
qed

lemma round53_pos_mono:
  assumes "0 < x" and "x \<le> y"
  shows "round53_pos x \<le> round53_pos y"
proof -
  from assms have y: "0 < y" by simp
  have "2 powi (ilog2 x) \<le> x" using ilog2_bounds(1)[OF assms(1)] .
  also have "x \<le> y" by fact
  also have "y < 2 powi (ilog2 y + 1)" using ilog2_bounds(2)[OF y] .
  finally have "ilog2 x < ilog2 y + 1" by (rule powi_less_imp_less)
  then consider "ilog2 x = ilog2 y" | "ilog2 x < ilog2 y" by linarith
  then show ?thesis
  proof cases
    case 1
    let ?e = "ilog2 y - 52"
    have "x / 2 powi ?e \<le> y / 2 powi ?e"
      using assms(2) powi_pos[of ?e] by (simp add: divide_right_mono)
    then have "round_half_even (x / 2 powi ?e) \<le> round_half_even (y / 2 powi ?e)"
      by (rule round_half_even_mono)
    then have "(of_int (round_half_even (x / 2 powi ?e)) :: rat) \<le> of_int (round_half_even (y / 2 powi ?e))"
      by simp
    then show ?thesis
      using 1 powi_pos[of ?e] by (simp add: round53_pos_def Let_def mult_right_mono)
  next
    case 2
    have "round53_pos x \<le> 2 ^ 53 * 2 powi (ilog2 x - 52)" by (rule round53_pos_bounds(2)[OF assms(1)])
    also have "\<dots> = 2 powi (ilog2 x + 1)"
      using powi_split[of "ilog2 x + 1" 53] by simp
    also have "\<dots> \<le> 2 powi (ilog2 y)" using 2 by (intro power_int_increasing) simp_all
    also have "\<dots> = 2 ^ 52 * 2 powi (ilog2 y - 52)"
      using powi_split[of "ilog2 y" 52] by simp
    also have "\<dots> \<le> round53_pos y" by (rule round53_pos_bounds(1)[OF y])
    finally show ?thesis .
  qed
qed

lemma round53_mono:
  assumes "x \<le> y"
  shows "round53 x \<le> round53 y"
proof -
  consider "0 < x" | "x \<le> 0" "0 \<le> y" | "y < 0" using assms by linarith
  then show ?thesis
  proof cases
    case 1
    with assms show ?thesis by (simp add: round53_def round53_pos_mono)
  next
    case 2
    have "round53 x \<le> 0"
      using 2(1) round53_pos_positive[of "- x"] by (auto simp: round53_def)
    moreover have "0 \<le> round53 y"
      using 2(2) round53_pos_positive[of y] by (auto simp: round53_def)
    ultimately show ?thesis by simp
  next
    case 3
    with assms have "0 < - y" "- y \<le> - x" "x < 0" by simp_all
    then show ?thesis
      using 3 round53_pos_mono[of "- y" "- x"] by (simp add: round53_def)
  qed
qed

lemma round53_pos_exact:
  assumes "0 < n" and "n < 2 ^ 53"
  shows "round53_pos (of_int n * 2 powi j) = of_int n * 2 powi j"
proof -
  let ?x = "of_int n * 2 powi j :: rat"
  have x: "0 < ?x" using assms(1) powi_pos[of j] by simp
  let ?e = "ilog2 ?x - 52"
  have "2 powi (ilog2 ?x) \<le> ?x" by (rule ilog2_bounds(1)[OF x])
  also have "?x < 2 ^ 53 * 2 powi j"
  proof -
    have "(of_int n :: rat) < of_int (2 ^ 53)" using assms(2) by (simp only: of_int_less_iff)
    then show ?thesis using powi_pos[of j] by (simp add: mult_strict_right_mono)
  qed
  also have "\<dots> = 2 powi (53 + j)"
    using powi_split[of "53 + j" 53] by simp
  finally have "ilog2 ?x < 53 + j" by (rule powi_less_imp_less)
  then have ej: "0 \<le> j - ?e" by simp
  have "(2::rat) powi ((j - ?e) + ?e) = 2 powi (j - ?e) * 2 powi ?e" by (rule power_int_add) simp
  then have pj: "(2::rat) powi j = 2 ^ nat (j - ?e) * 2 powi ?e" using ej by (simp add: powi_nat)
  have "?x / 2 powi ?e = of_int n * 2 ^ nat (j - ?e)"
    using powi_pos[of ?e] by (subst pj) simp
  also have "\<dots> = of_int (n * 2 ^ nat (j - ?e))" by simp
  finally have "round_half_even (?x / 2 powi ?e) = n * 2 ^ nat (j - ?e)"
    by (simp only: round_half_even_of_int)
  then have "round53_pos ?x = of_int (n * 2 ^ nat (j - ?e)) * 2 powi ?e"
    by (simp add: round53_pos_def Let_def)
  also have "\<dots> = of_int n * (2 ^ nat (j - ?e) * 2 powi ?e)" by simp
  also have "\<dots> = ?x" by (simp only: pj[symmetric])
  finally show ?thesis .
qed

lemma round53_exact:
  assumes "\<bar>n\<bar> < 2 ^ 53"
  shows "round53 (of_int n * 2 powi j) = of_int n * 2 powi j"
proof -
  consider "n = 0" | "0 < n" | "n < 0" by linarith
  then show ?thesis
  proof cases
    case 1
    then show ?thesis by (simp add: round53_def)
  next
    case 2
    with assms have "n < 2 ^ 53" by simp
    from round53_pos_exact[OF 2 this, of j] 2 powi_pos[of j] show ?thesis
      by (simp add: round53_def)
  next
    case 3
    with assms have n: "0 < - n" "- n < 2 ^ 53" by simp_all
    have neg: "of_int n * 2 powi j < (0::rat)"
      using 3 powi_pos[of j] by (simp add: mult_neg_pos)
    from round53_pos_exact[OF n, of j] neg show ?thesis
      by (simp add: round53_def)
  qed
qed

lemma round53_of_int: "\<bar>n\<bar> < 2 ^ 53 \<Longrightarrow> round53 (of_int n) = of_int n"
  using round53_exact[of n 0] by simp

text \<open>
  The elapsed minutes as \<open>isTimedOut\<close> computes them, for two times less than
  \<open>2 ^ 53\<close> milliseconds apart: they exceed the gap when a double lies above the gap
  and at or below the exact quotient, and they do not when the exact quotient is at
  most the gap.
\<close>

lemma elapsed_exceeds:
  assumes "\<bar>d\<bar> < 2 ^ 53" and "round53 y = y" and "gap < y" and "y \<le> of_int d / (1000 * 60)"
  shows "gap < round53 (round53 (of_int d) / (1000 * 60))"
proof -
  have "y \<le> round53 (of_int d / (1000 * 60))"
    using round53_mono[OF assms(4)] assms(2) by simp
  with assms(3) show ?thesis by (simp add: round53_of_int[OF assms(1)])
qed

lemma elapsed_within:
  assumes "\<bar>d\<bar> < 2 ^ 53" and "round53 gap = gap" and "of_int d / (1000 * 60) \<le> gap"
  shows "\<not> gap < round53 (round53 (of_int d) / (1000 * 60))"
proof -
  have "round53 (of_int d / (1000 * 60)) \<le> gap"
    using round53_mono[OF assms(3)] assms(2) by simp
  then show ?thesis by (simp add: round53_of_int[OF assms(1)])
qed

text \<open>
  Above a whole number of minutes below \<open>2 ^ 36\<close>, a quotient of whole milliseconds
  by 60000 is at least \<open>1 / 60000\<close> higher, and the double \<open>1 / 65536\<close> above the
  whole number lies between them.
\<close>

lemma whole_minutes_margin:
  assumes "\<bar>g\<bar> < 2 ^ 36" and "of_int g < (of_int d / (1000 * 60) :: rat)"
  shows "\<exists>y::rat. round53 y = y \<and> of_int g < y \<and> y \<le> of_int d / (1000 * 60)"
proof -
  let ?n = "g * 65536 + 1"
  let ?y = "of_int ?n * 2 powi (- 16) :: rat"
  have "\<bar>?n\<bar> < 2 ^ 53" using assms(1) by simp
  then have r: "round53 ?y = ?y" by (rule round53_exact)
  have y: "?y = of_int g + 1 / 65536" by (simp add: power_int_def field_simps)
  have "(of_int (g * 60000) :: rat) < of_int d" using assms(2) by (simp add: field_simps)
  then have "g * 60000 < d" by (simp only: of_int_less_iff)
  then have "g * 60000 + 1 \<le> d" by simp
  then have "(of_int (g * 60000 + 1) :: rat) \<le> of_int d" by (simp only: of_int_le_iff)
  then have "of_int g + 1 / 60000 \<le> (of_int d / (1000 * 60) :: rat)" by (simp add: field_simps)
  then have "?y \<le> of_int d / (1000 * 60)" unfolding y by simp
  moreover have "of_int g < ?y" unfolding y by simp
  ultimately show ?thesis using r by blast
qed

text \<open>
  Two cases in which the rounding decides: a difference above \<open>2 ^ 53\<close> that rounds
  down onto 160000000000 minutes, and a third of a minute against the double nearest
  to \<open>1 / 3\<close>.
\<close>

lemma isTimedOut_rounds:
  "\<not> isTimedOut (Some (- 1600000000000001)) (Some 8000000000000000) 160000000000 \<and>
   \<not> isTimedOut (Some 0) (Some 20000) (round53 (1 / 3)) \<and>
   isTimedOut (Some 0) (Some 1800001) 30 \<and>
   \<not> isTimedOut (Some 0) (Some 1800000) 30"
  by code_simp

section \<open>Properties of the segmenter\<close>

text \<open>
  The loop of \<open>detectSections\<close> computes \<open>segmentation\<close>: whether it opens a section
  at a message depends on the open section through its \<open>endTime\<close> only, which is the
  time of the message before.
\<close>

text \<open>The time of a message is a time value in the range of \<open>Date\<close>, hence a double.\<close>

lemma message_time_range:
  "message_time env i m = Some t \<Longrightarrow> \<bar>t\<bar> \<le> 8640000000000000"
  by (auto simp: message_time_def new_Date_def clip_def time_clip_def
      split: js_timestamp.splits option.splits if_splits)

lemma detectSections_loop_Suc:
  "detectSections_loop env options msgs (Suc k) =
   detectSections_iter env options msgs (detectSections_loop env options msgs k) k"
  by (simp add: detectSections_loop_def)

lemma detectSections_loop_0:
  "detectSections_loop env options msgs 0 = \<lparr>sections = [], currentSection = None, sectionId = 0\<rparr>"
  by (simp add: detectSections_loop_def)

lemma segmentation_nonempty: "k > 0 \<Longrightarrow> segmentation env options msgs k \<noteq> []"
  by (cases k) (auto simp: Let_def)

lemma segmentation_last_endTime:
  "k > 0 \<Longrightarrow> endTime (last (segmentation env options msgs k)) =
     message_time env (k - 1) (msgs ! (k - 1))"
  by (cases k) (auto simp: Let_def new_section_def extend_section_def)

lemma loop_segmentation:
  "open_sections (detectSections_loop env options msgs k) = segmentation env options msgs k \<and>
   sectionId (detectSections_loop env options msgs k) = length (segmentation env options msgs k) \<and>
   (currentSection (detectSections_loop env options msgs k) = None \<longleftrightarrow> k = 0)"
proof (induction k)
  case 0
  show ?case by (simp add: detectSections_loop_0 open_sections_def)
next
  case (Suc k)
  let ?st = "detectSections_loop env options msgs k"
  let ?secs = "segmentation env options msgs k"
  show ?case
  proof (cases "currentSection ?st")
    case None
    with Suc have k0: "k = 0" by simp
    have b: "boundary env options msgs 0" by (simp add: boundary_def)
    from None Suc k0 b show ?thesis
      by (simp add: detectSections_loop_Suc detectSections_iter_def shouldNewSection_def
            open_sections_def Let_def)
  next
    case (Some cur)
    with Suc have kpos: "k > 0" by auto
    from Some Suc have secs: "?secs = sections ?st @ [cur]"
      by (simp add: open_sections_def)
    have e: "endTime cur = message_time env (k - 1) (msgs ! (k - 1))"
      using segmentation_last_endTime[OF kpos, of env options msgs] secs by simp
    have sh: "shouldNewSection env options msgs ?st k = boundary env options msgs k"
      using Some e kpos by (auto simp: shouldNewSection_def boundary_def)
    show ?thesis
    proof (cases "boundary env options msgs k")
      case True
      with sh Some Suc secs show ?thesis
        by (simp add: detectSections_loop_Suc detectSections_iter_def open_sections_def Let_def)
    next
      case False
      with sh Some Suc secs show ?thesis
        by (simp add: detectSections_loop_Suc detectSections_iter_def open_sections_def Let_def
              extend_section_def)
    qed
  qed
qed

lemma detectSections_segmentation:
  "detectSections env options msgs = segmentation env options msgs (length msgs)"
proof (cases "msgs = []")
  case True
  then show ?thesis by (simp add: detectSections_def)
next
  case False
  then show ?thesis
    using loop_segmentation[of env options msgs "length msgs"]
    by (simp add: detectSections_def open_sections_def Let_def split: option.splits)
qed

lemma section_starts_from_append:
  "section_starts_from b (xs @ ys) =
   section_starts_from b xs @ section_starts_from (b + length (concat (map messages xs))) ys"
  by (induction xs arbitrary: b) (auto simp: add.assoc)

lemma sections_span_append:
  "sections_span env msgs b (xs @ ys) \<longleftrightarrow>
   sections_span env msgs b xs \<and>
   sections_span env msgs (b + length (concat (map messages xs))) ys"
  by (induction xs arbitrary: b) (auto simp: add.assoc)

lemma segmentation_concat:
  "k \<le> length msgs \<Longrightarrow> concat (map messages (segmentation env options msgs k)) = take k msgs"
proof (induction k)
  case 0
  show ?case by simp
next
  case (Suc k)
  let ?secs = "segmentation env options msgs k"
  from Suc have IH: "concat (map messages ?secs) = take k msgs" and k: "k < length msgs" by auto
  show ?case
  proof (cases "boundary env options msgs k")
    case True
    with IH k show ?thesis
      by (simp add: Let_def new_section_def take_Suc_conv_app_nth)
  next
    case False
    then have "k > 0" by (auto simp: boundary_def)
    then have ne: "?secs \<noteq> []" by (rule segmentation_nonempty)
    then have split: "?secs = butlast ?secs @ [last ?secs]" by simp
    have "concat (map messages (butlast ?secs)) @ messages (last ?secs) = take k msgs"
      using IH by (subst (asm) split) simp
    with False k show ?thesis
      by (simp add: Let_def extend_section_def take_Suc_conv_app_nth)
  qed
qed

lemma segmentation_ids:
  "map id_sec (segmentation env options msgs k) = [0..<length (segmentation env options msgs k)]"
proof (induction k)
  case 0
  show ?case by simp
next
  case (Suc k)
  let ?secs = "segmentation env options msgs k"
  show ?case
  proof (cases "boundary env options msgs k")
    case True
    with Suc show ?thesis by (simp add: Let_def new_section_def)
  next
    case False
    then have "k > 0" by (auto simp: boundary_def)
    then have ne: "?secs \<noteq> []" by (rule segmentation_nonempty)
    have "map id_sec (butlast ?secs @ [extend_section (last ?secs) (msgs ! k) (message_time env k (msgs ! k))])
          = map id_sec (butlast ?secs @ [last ?secs])"
      by (simp add: extend_section_def)
    also have "\<dots> = map id_sec ?secs" using ne by simp
    finally show ?thesis using False Suc ne by (simp add: Let_def)
  qed
qed

lemma segmentation_starts:
  "k \<le> length msgs \<Longrightarrow>
   set (section_starts_from 0 (segmentation env options msgs k)) =
   {i. i < k \<and> boundary env options msgs i}"
proof (induction k)
  case 0
  show ?case by simp
next
  case (Suc k)
  let ?secs = "segmentation env options msgs k"
  from Suc have IH: "set (section_starts_from 0 ?secs) = {i. i < k \<and> boundary env options msgs i}"
    and k: "k \<le> length msgs" by auto
  have cc: "length (concat (map messages ?secs)) = k"
    using segmentation_concat[OF k, of env options] k by simp
  show ?case
  proof (cases "boundary env options msgs k")
    case True
    with IH cc show ?thesis
      by (auto simp: Let_def section_starts_from_append less_Suc_eq)
  next
    case False
    then have "k > 0" by (auto simp: boundary_def)
    then have ne: "?secs \<noteq> []" by (rule segmentation_nonempty)
    have "section_starts_from 0 (butlast ?secs @ [extend_section (last ?secs) (msgs ! k) (message_time env k (msgs ! k))])
        = section_starts_from 0 (butlast ?secs @ [last ?secs])"
      by (simp add: section_starts_from_append)
    also have "\<dots> = section_starts_from 0 ?secs" using ne by simp
    finally show ?thesis using False IH by (auto simp: Let_def less_Suc_eq)
  qed
qed

lemma segmentation_spans:
  "k \<le> length msgs \<Longrightarrow> sections_span env msgs 0 (segmentation env options msgs k)"
proof (induction k)
  case 0
  show ?case by simp
next
  case (Suc k)
  let ?secs = "segmentation env options msgs k"
  let ?m = "msgs ! k"
  let ?t = "message_time env k ?m"
  from Suc have IH: "sections_span env msgs 0 ?secs" and k: "k < length msgs" by auto
  have cc: "concat (map messages ?secs) = take k msgs"
    using segmentation_concat[of k msgs env options] k by simp
  then have len: "length (concat (map messages ?secs)) = k" using k by simp
  show ?case
  proof (cases "boundary env options msgs k")
    case True
    have "section_spans env msgs k (new_section (length ?secs) ?m ?t)"
      using k by (simp add: section_spans_def new_section_def section_title_def
            take_Suc_conv_app_nth hd_drop_conv_nth)
    with True IH len show ?thesis
      by (simp add: Let_def sections_span_append)
  next
    case False
    then have "k > 0" by (auto simp: boundary_def)
    then have ne: "?secs \<noteq> []" by (rule segmentation_nonempty)
    let ?b = "length (concat (map messages (butlast ?secs)))"
    let ?l = "last ?secs"
    have split: "?secs = butlast ?secs @ [?l]" using ne by simp
    have IH': "sections_span env msgs 0 (butlast ?secs)" "section_spans env msgs ?b ?l"
      using IH by (subst (asm) split, simp add: sections_span_append)+
    have "concat (map messages (butlast ?secs)) @ messages ?l = take k msgs"
      using cc by (subst (asm) split) simp
    then have bl: "?b + length (messages ?l) = k"
      using k by (metis length_append length_take min.absorb2 less_imp_le)
    have pos: "length (messages ?l) > 0" using IH'(2) by (simp add: section_spans_def)
    have tk: "take (Suc (length (messages ?l))) (drop ?b msgs) = messages ?l @ [?m]"
    proof -
      have "take (Suc (length (messages ?l))) (drop ?b msgs) =
            take (length (messages ?l)) (drop ?b msgs) @ [drop ?b msgs ! length (messages ?l)]"
        using bl k by (simp add: take_Suc_conv_app_nth)
      also have "drop ?b msgs ! length (messages ?l) = ?m" using bl k by simp
      also have "take (length (messages ?l)) (drop ?b msgs) = messages ?l"
        using IH'(2) by (simp add: section_spans_def)
      finally show ?thesis .
    qed
    have "section_spans env msgs ?b (extend_section ?l ?m ?t)"
      using IH'(2) bl k pos tk
      by (auto simp: section_spans_def extend_section_def)
    with False IH'(1) show ?thesis
      by (simp add: Let_def sections_span_append)
  qed
qed

lemma sections_span_zip:
  "sections_span env msgs b0 secs \<Longrightarrow> (b, s) \<in> set (zip (section_starts_from b0 secs) secs) \<Longrightarrow>
   section_spans env msgs b s"
  by (induction secs arbitrary: b0) auto

lemma length_section_starts_from: "length (section_starts_from b secs) = length secs"
  by (induction secs arbitrary: b) auto

lemma section_spans_bounds:
  assumes "section_spans env msgs b s"
  shows "0 < length (messages s)" and "b + length (messages s) \<le> length msgs"
    and "b < length msgs" and "b + length (messages s) - 1 < length msgs"
    and "b \<le> b + length (messages s) - 1"
proof -
  from assms have "messages s \<noteq> []" and le: "b + length (messages s) \<le> length msgs"
    unfolding section_spans_def by blast+
  then have pos: "0 < length (messages s)" by simp
  show "0 < length (messages s)" by (rule pos)
  show "b + length (messages s) \<le> length msgs" by (rule le)
  show "b < length msgs" using pos le by linarith
  show "b + length (messages s) - 1 < length msgs" using pos le by linarith
  show "b \<le> b + length (messages s) - 1" using pos by linarith
qed

lemma section_spans_times:
  assumes "section_spans env msgs b s"
  shows "startTime s = message_time env b (msgs ! b)"
    and "endTime s = message_time env (b + length (messages s) - 1)
                       (msgs ! (b + length (messages s) - 1))"
  using assms unfolding section_spans_def by blast+

lemma section_spans_title:
  assumes "section_spans env msgs b s"
  shows "title s = section_title (id_sec s) (msgs ! b)"
  using assms unfolding section_spans_def by blast

lemma section_spans_first:
  assumes "section_spans env msgs b s"
  shows "\<exists>ms. messages s = msgs ! b # ms"
proof -
  from assms have eq: "messages s = take (length (messages s)) (drop b msgs)"
    unfolding section_spans_def by blast
  obtain n where n: "length (messages s) = Suc n"
    using section_spans_bounds(1)[OF assms] by (cases "length (messages s)") auto
  have "drop b msgs = msgs ! b # drop (Suc b) msgs"
    using section_spans_bounds(3)[OF assms] by (simp add: Cons_nth_drop_Suc)
  then have "take (Suc n) (drop b msgs) = msgs ! b # take n (drop (Suc b) msgs)"
    by simp
  with eq n show ?thesis by metis
qed

lemma detectSections_spans:
  "(b, s) \<in> set (zip (section_starts (detectSections env options msgs)) (detectSections env options msgs))
   \<Longrightarrow> section_spans env msgs b s"
  unfolding section_starts_def detectSections_segmentation
  using segmentation_spans[of "length msgs" msgs env options] sections_span_zip by blast

lemma in_set_zip_starts:
  "s \<in> set secs \<Longrightarrow> \<exists>b. (b, s) \<in> set (zip (section_starts secs) secs)"
  unfolding section_starts_def
  by (metis in_set_impl_in_set_zip2 length_section_starts_from)

lemma message_times_nth:
  assumes "message_times env msgs = map Some ts" and "i < length msgs"
  shows "i < length ts" and "message_time env i (msgs ! i) = Some (ts ! i)"
proof -
  have "length (message_times env msgs) = length msgs" by (simp add: message_times_def)
  with assms(1) have len: "length ts = length msgs" by simp
  show "i < length ts" using len assms(2) by simp
  have "message_times env msgs ! i = message_time env i (msgs ! i)"
    using assms(2) by (simp add: message_times_def)
  then show "message_time env i (msgs ! i) = Some (ts ! i)"
    using assms len by simp
qed

text \<open>
  A position at which a section begins holds the first message of a section; at any
  other position the message follows its predecessor within one section.
\<close>

lemma section_starts_from_cover:
  assumes "b0 \<le> i" and "i < b0 + length (concat (map messages secs))"
  shows "\<exists>b s. (b, s) \<in> set (zip (section_starts_from b0 secs) secs) \<and>
               b \<le> i \<and> i < b + length (messages s)"
  using assms
proof (induction secs arbitrary: b0)
  case Nil
  then show ?case by simp
next
  case (Cons s secs)
  show ?case
  proof (cases "i < b0 + length (messages s)")
    case True
    with Cons.prems(1) show ?thesis by auto
  next
    case False
    then have "b0 + length (messages s) \<le> i" by simp
    moreover have "i < (b0 + length (messages s)) + length (concat (map messages secs))"
      using Cons.prems(2) by simp
    ultimately obtain b s' where
      "(b, s') \<in> set (zip (section_starts_from (b0 + length (messages s)) secs) secs)"
      "b \<le> i" "i < b + length (messages s')"
      using Cons.IH by blast
    then show ?thesis by auto
  qed
qed

lemma section_spans_nth:
  assumes "section_spans env msgs b s" and "b \<le> i" and "i < b + length (messages s)"
  shows "messages s ! (i - b) = msgs ! i"
proof -
  from assms(1) have eq: "messages s = take (length (messages s)) (drop b msgs)"
    and le: "b + length (messages s) \<le> length msgs"
    unfolding section_spans_def by blast+
  have "take (length (messages s)) (drop b msgs) ! (i - b) = msgs ! i"
    using assms(2,3) le by simp
  with eq show ?thesis by metis
qed

lemma detectSections_starts_section:
  assumes "i \<in> set (section_starts (detectSections env options msgs))"
  shows "\<exists>s\<in>set (detectSections env options msgs). \<exists>ms. messages s = msgs ! i # ms"
proof -
  let ?out = "detectSections env options msgs"
  have "length (section_starts ?out) = length ?out"
    by (simp add: section_starts_def length_section_starts_from)
  with assms obtain s where z: "(i, s) \<in> set (zip (section_starts ?out) ?out)"
    by (meson in_set_impl_in_set_zip1)
  then have "s \<in> set ?out" by (rule set_zip_rightD)
  moreover have "\<exists>ms. messages s = msgs ! i # ms"
    using detectSections_spans[OF z] by (rule section_spans_first)
  ultimately show ?thesis by blast
qed

lemma detectSections_same_section:
  assumes "0 < i" and "i < length msgs"
    and "i \<notin> set (section_starts (detectSections env options msgs))"
  shows "\<exists>s\<in>set (detectSections env options msgs). \<exists>k. Suc k < length (messages s) \<and>
           messages s ! k = msgs ! (i - 1) \<and> messages s ! Suc k = msgs ! i"
proof -
  let ?out = "detectSections env options msgs"
  have "i < 0 + length (concat (map messages ?out))"
    using assms(2) detectSections_segmentation[of env options msgs]
      segmentation_concat[of "length msgs" msgs env options] by simp
  from section_starts_from_cover[OF _ this] obtain b s where
    z: "(b, s) \<in> set (zip (section_starts ?out) ?out)" and b: "b \<le> i" "i < b + length (messages s)"
    unfolding section_starts_def by blast
  from z have "b \<in> set (section_starts ?out)" by (rule set_zip_leftD)
  with assms(3) b(1) have lt: "b < i" by (metis le_neq_implies_less)
  note sp = detectSections_spans[OF z]
  have 1: "messages s ! (i - 1 - b) = msgs ! (i - 1)"
    using section_spans_nth[OF sp, of "i - 1"] lt b(2) by simp
  have 2: "messages s ! (i - b) = msgs ! i"
    using section_spans_nth[OF sp b] .
  have 3: "Suc (i - 1 - b) = i - b" "i - b < length (messages s)" using lt b(2) by auto
  from z have "s \<in> set ?out" by (rule set_zip_rightD)
  with 1 2 3 show ?thesis by metis
qed

lemma boundary_iff_section_start:
  assumes "i < length msgs"
  shows "i \<in> set (section_starts (detectSections env options msgs)) \<longleftrightarrow> boundary env options msgs i"
  using segmentation_starts[of "length msgs" msgs env options] assms
  by (auto simp: section_starts_def detectSections_segmentation)

text \<open>
  C1. The \<open>messages\<close> of the sections \<open>detectSections\<close> returns, concatenated in
  the order of the output, are the input: the same messages in the same order, none
  twice and none missing. This holds for every input, the empty one included.
\<close>

theorem detectSections_partition:
  "concat (map messages (detectSections env options msgs)) = msgs"
  using segmentation_concat[of "length msgs" msgs env options]
  by (simp add: detectSections_segmentation)

theorem detectSections_partition_witness:
  "concat (map messages (detectSections example_env default_options gap_messages)) = gap_messages \<and>
   map (\<lambda>s. length (messages s)) (detectSections example_env default_options gap_messages) = [2, 1]"
proof -
  have "map (\<lambda>s. length (messages s)) (detectSections example_env default_options gap_messages) = [2, 1]"
    by code_simp
  with detectSections_partition[of example_env default_options gap_messages] show ?thesis by blast
qed

text \<open>
  C2, as stated, fails: \<open>endTime\<close> is the time of the last message of a section and
  \<open>startTime\<close> the time of its first, whatever their order. For the two messages of
  \<open>out_of_order_messages\<close> the only section starts at 10000000 and ends at 1.
\<close>

theorem endTime_before_startTime_counterexample:
  "length (detectSections example_env default_options out_of_order_messages) = 1 \<and>
   startTime (detectSections example_env default_options out_of_order_messages ! 0) = Some 10000000 \<and>
   endTime (detectSections example_env default_options out_of_order_messages ! 0) = Some 1 \<and>
   \<not> date_ge (endTime (detectSections example_env default_options out_of_order_messages ! 0))
              (startTime (detectSections example_env default_options out_of_order_messages ! 0))"
  by code_simp

text \<open>
  C2, amended. When the times \<open>detectSections\<close> gives the messages of its input are
  valid dates in non-decreasing order, every section it returns has
  \<open>endTime >= startTime\<close>.
\<close>

theorem endTime_ge_startTime_sorted:
  assumes "message_times env msgs = map Some ts" and "sorted ts"
    and "s \<in> set (detectSections env options msgs)"
  shows "date_ge (endTime s) (startTime s)"
proof -
  from assms(3) obtain b where "(b, s) \<in> set (zip (section_starts (detectSections env options msgs)) (detectSections env options msgs))"
    using in_set_zip_starts by blast
  then have sp: "section_spans env msgs b s" by (rule detectSections_spans)
  let ?e = "b + length (messages s) - 1"
  note bd = section_spans_bounds[OF sp]
  have "ts ! b \<le> ts ! ?e"
    using assms(2) bd(5) message_times_nth(1)[OF assms(1) bd(4)]
    by (simp only: sorted_iff_nth_mono)
  then show ?thesis
    unfolding section_spans_times[OF sp]
      message_times_nth(2)[OF assms(1) bd(3)] message_times_nth(2)[OF assms(1) bd(4)]
    by (simp add: date_ge_def)
qed

theorem endTime_ge_startTime_sorted_witness:
  "message_times example_env gap_messages = map Some [1000, 2000, 3600000] \<and>
   sorted [1000, 2000, 3600000 :: int] \<and>
   map startTime (detectSections example_env default_options gap_messages) = [Some 1000, Some 3600000] \<and>
   map endTime (detectSections example_env default_options gap_messages) = [Some 2000, Some 3600000] \<and>
   date_ge (endTime (detectSections example_env default_options gap_messages ! 0))
           (startTime (detectSections example_env default_options gap_messages ! 0))"
proof -
  have t: "message_times example_env gap_messages = map Some [1000, 2000, 3600000]" by code_simp
  have s: "sorted [1000, 2000, 3600000 :: int]" by simp
  have "0 < length (detectSections example_env default_options gap_messages)" by code_simp
  then have m: "detectSections example_env default_options gap_messages ! 0
      \<in> set (detectSections example_env default_options gap_messages)"
    by (rule nth_mem)
  have v: "map startTime (detectSections example_env default_options gap_messages) = [Some 1000, Some 3600000]"
    "map endTime (detectSections example_env default_options gap_messages) = [Some 2000, Some 3600000]"
    by code_simp+
  from endTime_ge_startTime_sorted[OF t s m] t s v show ?thesis by blast
qed

text \<open>
  Markers are compared in lower case, the Latin-1 capitals included.
\<close>

lemma hasSectionMarker_latin1:
  "hasSectionMarker (Some ([CHR 0xE9] @ ''tape 2'')) [[CHR 0xC9] @ ''TAPE''] \<and>
   hasSectionMarker (Some ([CHR 0xC9] @ ''TAPE 2'')) [[CHR 0xE9] @ ''tape''] \<and>
   \<not> hasSectionMarker (Some ([CHR 0xD7] @ ''2'')) [[CHR 0xF7]]"
  by code_simp

text \<open>
  C7, as stated, fails when the second message is the earlier one: the gap is the time
  from the first message to the second, not the distance between them. The two messages
  of \<open>out_of_order_messages\<close> are 166 minutes apart, the gap is 30 minutes, the second
  holds no marker, and the only section begins at position 0.
\<close>

theorem time_gap_counterexample:
  "message_time example_env 0 (out_of_order_messages ! 0) = Some 10000000 \<and>
   message_time example_env 1 (out_of_order_messages ! 1) = Some 1 \<and>
   \<bar>of_int (1 - 10000000)\<bar> / (1000 * 60) > timeGap_of default_options \<and>
   \<not> hasSectionMarker (content (out_of_order_messages ! 1)) (sectionMarkers_of default_options) \<and>
   section_starts (detectSections example_env default_options out_of_order_messages) = [0]"
  by code_simp

text \<open>
  C7, amended. Let messages \<open>i - 1\<close> and \<open>i\<close> of the input have valid times \<open>t1\<close> and
  \<open>t2\<close>, less than \<open>2 ^ 53\<close> milliseconds apart. When \<open>t2\<close> is more than \<open>timeGap\<close>
  minutes after \<open>t1\<close> and \<open>timeGap\<close> is a whole number of minutes below \<open>2 ^ 36\<close>
  or, whatever \<open>timeGap\<close> is, some double lies above it and at or below the minutes
  from \<open>t1\<close> to \<open>t2\<close>, a section of the output begins at position \<open>i\<close>, with
  message \<open>i\<close> as its first message. When \<open>t2\<close> is not more than \<open>timeGap\<close> minutes
  after \<open>t1\<close> (it is within the gap, or earlier), and message \<open>i\<close> holds no marker,
  and the topic does not change between the two or topic changes are not detected, no
  section begins at position \<open>i\<close>: message \<open>i\<close> follows message \<open>i - 1\<close> in the
  messages of one section. (\<open>timeGap\<close> is a double.)
\<close>

theorem time_gap_starts_section:
  assumes "0 < i" and "i < length msgs"
    and "message_time env (i - 1) (msgs ! (i - 1)) = Some t1"
    and "message_time env i (msgs ! i) = Some t2"
    and "\<bar>t2 - t1\<bar> < 2 ^ 53"
  shows "((timeGap_of options = of_int g \<and> \<bar>g\<bar> < 2 ^ 36 \<and>
           of_int (t2 - t1) / (1000 * 60) > timeGap_of options) \<or>
          (round53 y = y \<and> timeGap_of options < y \<and> y \<le> of_int (t2 - t1) / (1000 * 60)) \<longrightarrow>
            i \<in> set (section_starts (detectSections env options msgs)) \<and>
            (\<exists>s\<in>set (detectSections env options msgs). \<exists>ms. messages s = msgs ! i # ms)) \<and>
         (round53 (timeGap_of options) = timeGap_of options \<and>
          of_int (t2 - t1) / (1000 * 60) \<le> timeGap_of options \<and>
          \<not> hasSectionMarker (content (msgs ! i)) (sectionMarkers_of options) \<and>
          \<not> (detectTopicChanges_of options \<and> hasTopicChange (msgs ! (i - 1)) (msgs ! i)) \<longrightarrow>
            i \<notin> set (section_starts (detectSections env options msgs)) \<and>
            (\<exists>s\<in>set (detectSections env options msgs). \<exists>k. Suc k < length (messages s) \<and>
               messages s ! k = msgs ! (i - 1) \<and> messages s ! Suc k = msgs ! i))"
proof -
  have b: "i \<in> set (section_starts (detectSections env options msgs)) \<longleftrightarrow>
           boundary env options msgs i"
    using assms(2) by (rule boundary_iff_section_start)
  have t: "isTimedOut (message_time env (i - 1) (msgs ! (i - 1))) (message_time env i (msgs ! i))
             (timeGap_of options) \<longleftrightarrow>
           timeGap_of options < round53 (round53 (of_int (t2 - t1)) / (1000 * 60))"
    using assms(3,4) by (simp add: isTimedOut_def Let_def)
  show ?thesis
  proof (intro conjI impI)
    assume h: "(timeGap_of options = of_int g \<and> \<bar>g\<bar> < 2 ^ 36 \<and>
           of_int (t2 - t1) / (1000 * 60) > timeGap_of options) \<or>
          (round53 y = y \<and> timeGap_of options < y \<and> y \<le> of_int (t2 - t1) / (1000 * 60))"
    have "\<exists>z. round53 z = z \<and> timeGap_of options < z \<and> z \<le> of_int (t2 - t1) / (1000 * 60)"
    proof (cases "round53 y = y \<and> timeGap_of options < y \<and> y \<le> of_int (t2 - t1) / (1000 * 60)")
      case True
      then show ?thesis by blast
    next
      case False
      with h have w: "timeGap_of options = of_int g" "\<bar>g\<bar> < 2 ^ 36"
        "of_int g < (of_int (t2 - t1) / (1000 * 60) :: rat)" by auto
      from whole_minutes_margin[OF w(2,3)] w(1) show ?thesis by simp
    qed
    then obtain z where "round53 z = z" "timeGap_of options < z"
      "z \<le> of_int (t2 - t1) / (1000 * 60)" by blast
    from elapsed_exceeds[OF assms(5) this]
    have "timeGap_of options < round53 (round53 (of_int (t2 - t1)) / (1000 * 60))" .
    with b t show s: "i \<in> set (section_starts (detectSections env options msgs))"
      by (simp add: boundary_def)
    then show "\<exists>s\<in>set (detectSections env options msgs). \<exists>ms. messages s = msgs ! i # ms"
      by (rule detectSections_starts_section)
  next
    assume h: "round53 (timeGap_of options) = timeGap_of options \<and>
          of_int (t2 - t1) / (1000 * 60) \<le> timeGap_of options \<and>
          \<not> hasSectionMarker (content (msgs ! i)) (sectionMarkers_of options) \<and>
          \<not> (detectTopicChanges_of options \<and> hasTopicChange (msgs ! (i - 1)) (msgs ! i))"
    then have "\<not> timeGap_of options < round53 (round53 (of_int (t2 - t1)) / (1000 * 60))"
      using elapsed_within[OF assms(5), of "timeGap_of options"] by blast
    with h b t assms(1) show n: "i \<notin> set (section_starts (detectSections env options msgs))"
      by (auto simp: boundary_def)
    with assms(1,2) show "\<exists>s\<in>set (detectSections env options msgs). \<exists>k. Suc k < length (messages s) \<and>
               messages s ! k = msgs ! (i - 1) \<and> messages s ! Suc k = msgs ! i"
      by (rule detectSections_same_section)
  qed
qed

theorem time_gap_starts_section_witness:
  "2 \<in> set (section_starts (detectSections example_env default_options gap_messages)) \<and>
   1 \<notin> set (section_starts (detectSections example_env default_options gap_messages))"
proof -
  have a: "(0::nat) < 2" by simp
  have b: "2 < length gap_messages" by code_simp
  have c: "message_time example_env (2 - 1) (gap_messages ! (2 - 1)) = Some 2000" by code_simp
  have d: "message_time example_env 2 (gap_messages ! 2) = Some 3600000" by code_simp
  have f: "\<bar>3600000 - 2000 :: int\<bar> < 2 ^ 53" by simp
  have e: "timeGap_of default_options = of_int 30 \<and> \<bar>30 :: int\<bar> < 2 ^ 36 \<and>
           of_int (3600000 - 2000) / (1000 * 60) > timeGap_of default_options"
    by code_simp
  have a': "(0::nat) < 1" by simp
  have b': "1 < length gap_messages" by code_simp
  have c': "message_time example_env (1 - 1) (gap_messages ! (1 - 1)) = Some 1000" by code_simp
  have d': "message_time example_env 1 (gap_messages ! 1) = Some 2000" by code_simp
  have f': "\<bar>2000 - 1000 :: int\<bar> < 2 ^ 53" by simp
  have e': "round53 (timeGap_of default_options) = timeGap_of default_options \<and>
          of_int (2000 - 1000) / (1000 * 60) \<le> timeGap_of default_options \<and>
          \<not> hasSectionMarker (content (gap_messages ! 1)) (sectionMarkers_of default_options) \<and>
          \<not> (detectTopicChanges_of default_options \<and> hasTopicChange (gap_messages ! (1 - 1)) (gap_messages ! 1))"
    by code_simp
  from time_gap_starts_section[OF a b c d f, of default_options 30 0] e
    time_gap_starts_section[OF a' b' c' d' f', of default_options 0 0] e'
  show ?thesis by blast
qed

text \<open>
  C9. The section at position \<open>j\<close> of the output has \<open>id\<close> \<open>j\<close>: the ids count from 0.
  Its title is the title extracted from its first message; when none is extracted
  (\<open>extractTitle\<close> returns \<open>null\<close> or the empty string) the title is \<open>Section\<close>
  followed by \<open>j + 1\<close>, so the section with id 0 is titled \<open>Section 1\<close>.
\<close>

theorem section_ids_and_fallback_titles:
  assumes "j < length (detectSections env options msgs)"
  shows "id_sec (detectSections env options msgs ! j) = j \<and>
         (\<exists>m ms. messages (detectSections env options msgs ! j) = m # ms \<and>
            title (detectSections env options msgs ! j) =
              (case extractTitle (content m) of
                 None \<Rightarrow> ''Section '' @ number_to_string (Suc j)
               | Some t \<Rightarrow> if t = [] then ''Section '' @ number_to_string (Suc j) else t))"
proof -
  let ?out = "detectSections env options msgs"
  have "map id_sec ?out ! j = [0..<length ?out] ! j"
    using segmentation_ids[of env options msgs "length msgs"] by (simp add: detectSections_segmentation)
  then have id: "id_sec (?out ! j) = j" using assms by simp
  from assms obtain b where "(b, ?out ! j) \<in> set (zip (section_starts ?out) ?out)"
    using in_set_zip_starts nth_mem by blast
  then have sp: "section_spans env msgs b (?out ! j)" by (rule detectSections_spans)
  from section_spans_first[OF sp] obtain ms where m: "messages (?out ! j) = msgs ! b # ms" ..
  have "title (?out ! j) = section_title j (msgs ! b)"
    using section_spans_title[OF sp] id by simp
  with id m show ?thesis by (simp add: section_title_def)
qed

theorem section_ids_and_fallback_titles_witness:
  "id_sec (detectSections example_env default_options untitled_messages ! 0) = 0 \<and>
   extractTitle (content (plain_message TsUndefined None)) = None \<and>
   title (detectSections example_env default_options untitled_messages ! 0) = ''Section 1'' \<and>
   id_sec (detectSections example_env default_options no_break_space_messages ! 0) = 0 \<and>
   extractTitle (content (plain_message TsUndefined (Some [CHR 0xA0]))) = Some [] \<and>
   title (detectSections example_env default_options no_break_space_messages ! 0) = ''Section 1''"
proof -
  let ?out = "detectSections example_env default_options untitled_messages"
  have l: "0 < length ?out" by code_simp
  have m: "messages (?out ! 0) = [plain_message TsUndefined None]" by code_simp
  have e: "extractTitle (content (plain_message TsUndefined None)) = None" by code_simp
  have n: "''Section '' @ number_to_string (Suc 0) = ''Section 1''" by code_simp
  let ?out' = "detectSections example_env default_options no_break_space_messages"
  have l': "0 < length ?out'" by code_simp
  have m': "messages (?out' ! 0) = [plain_message TsUndefined (Some [CHR 0xA0])]" by code_simp
  have e': "extractTitle (content (plain_message TsUndefined (Some [CHR 0xA0]))) = Some []"
    by code_simp
  from section_ids_and_fallback_titles[OF l] m e n
  have 1: "id_sec (?out ! 0) = 0 \<and> title (?out ! 0) = ''Section 1''" by auto
  from section_ids_and_fallback_titles[OF l'] m' e' n
  have 2: "id_sec (?out' ! 0) = 0 \<and> title (?out' ! 0) = ''Section 1''" by auto
  from 1 2 e e' show ?thesis by blast
qed

text \<open>
  The no-break space is white space to \<open>trim\<close> and to the heading pattern: a heading
  may follow its \<open>#\<close> after one, and a first line that holds nothing else is empty.
\<close>

lemma extractTitle_no_break_space:
  "extractTitle (Some [CHR 0xA0]) = Some [] \<and>
   extractTitle (Some ([CHR ''#'', CHR 0xA0] @ ''Title'')) = Some ''Title'' \<and>
   extractTitle (Some ([CHR 0xA0] @ ''Title'' @ [CHR 0xA0])) = Some ''Title''"
  by code_simp

text \<open>
  C10. A message whose \<open>timestamp\<close> is absent, \<open>null\<close>, the empty string or the
  number 0 gets the reading of the clock in its iteration of the loop: when it is the
  first message of a section of the output that reading is the section's \<open>startTime\<close>,
  when it is the last it is the section's \<open>endTime\<close>. A timestamp 0, the epoch, is
  not kept. (The clock reads a time in the range of \<open>Date\<close>.)
\<close>

theorem falsy_timestamp_replaced_by_clock:
  assumes "(b, s) \<in> set (zip (section_starts (detectSections env options msgs))
                            (detectSections env options msgs))"
  shows "(timestamp (msgs ! b) \<in> {TsUndefined, TsNull, TsString [], TsNumber 0} \<and>
          \<bar>clock env b\<bar> \<le> 8640000000000000 \<longrightarrow>
            startTime s = Some (clock env b)) \<and>
         (timestamp (msgs ! (b + length (messages s) - 1))
             \<in> {TsUndefined, TsNull, TsString [], TsNumber 0} \<and>
          \<bar>clock env (b + length (messages s) - 1)\<bar> \<le> 8640000000000000 \<longrightarrow>
            endTime s = Some (clock env (b + length (messages s) - 1)))"
proof -
  have sp: "section_spans env msgs b s" using assms(1) by (rule detectSections_spans)
  have "\<And>i m. timestamp m \<in> {TsUndefined, TsNull, TsString [], TsNumber 0} \<Longrightarrow>
          \<bar>clock env i\<bar> \<le> 8640000000000000 \<Longrightarrow>
          message_time env i m = Some (clock env i)"
    by (auto simp: message_time_def truthy_timestamp_def new_Date_def time_clip_def)
  then show ?thesis
    unfolding section_spans_times[OF sp] by blast
qed

theorem falsy_timestamp_replaced_by_clock_witness:
  "timestamp (epoch_messages ! 0) = TsNumber 0 \<and>
   clock example_env 0 = 5000 \<and>
   map startTime (detectSections example_env default_options epoch_messages) = [Some 5000] \<and>
   map endTime (detectSections example_env default_options epoch_messages) = [Some 5000]"
proof -
  let ?out = "detectSections example_env default_options epoch_messages"
  have z: "(0, ?out ! 0) \<in> set (zip (section_starts ?out) ?out)" by code_simp
  have l: "length ?out = 1" "length (messages (?out ! 0)) = 1" by code_simp+
  have t: "timestamp (epoch_messages ! 0) = TsNumber 0" by code_simp
  have c: "clock example_env 0 = 5000" by code_simp
  from l have o: "?out = [?out ! 0]"
    by (metis One_nat_def length_0_conv length_Suc_conv nth_Cons_0)
  from falsy_timestamp_replaced_by_clock[OF z] l t c
  have "startTime (?out ! 0) = Some 5000 \<and> endTime (?out ! 0) = Some 5000" by simp
  then have "map startTime [?out ! 0] = [Some 5000] \<and> map endTime [?out ! 0] = [Some 5000]" by simp
  with o t c show ?thesis by metis
qed

section \<open>Properties of the regular expressions\<close>

lemma star_greedy_keeps:
  assumes "\<And>s s'. s' \<in> set (m s) \<Longrightarrow> P s \<Longrightarrow> P s'"
  shows "s' \<in> set (star_greedy n m s) \<Longrightarrow> P s \<Longrightarrow> P s'"
proof (induction n arbitrary: s)
  case 0
  then show ?case by simp
next
  case (Suc n)
  from Suc.prems(1) consider "s' = s"
    | mid where "mid \<in> set (m s)" "s' \<in> set (star_greedy n m mid)"
    by auto
  then show ?case
  proof cases
    case 1
    with Suc.prems(2) show ?thesis by simp
  next
    case 2
    from assms[OF 2(1) Suc.prems(2)] have "P mid" .
    from Suc.IH[OF 2(2) this] show ?thesis .
  qed
qed

lemma star_lazy_keeps:
  assumes "\<And>s s'. s' \<in> set (m s) \<Longrightarrow> P s \<Longrightarrow> P s'"
  shows "s' \<in> set (star_lazy n m s) \<Longrightarrow> P s \<Longrightarrow> P s'"
proof (induction n arbitrary: s)
  case 0
  then show ?case by simp
next
  case (Suc n)
  from Suc.prems(1) consider "s' = s"
    | mid where "mid \<in> set (m s)" "s' \<in> set (star_lazy n m mid)"
    by auto
  then show ?case
  proof cases
    case 1
    with Suc.prems(2) show ?thesis by simp
  next
    case 2
    from assms[OF 2(1) Suc.prems(2)] have "P mid" .
    from Suc.IH[OF 2(2) this] show ?thesis .
  qed
qed

lemma rmatch_keeps: "s' \<in> set (rmatch r s) \<Longrightarrow> captured s \<Longrightarrow> captured s'"
proof (induction r arbitrary: s s')
  case Empty
  then show ?case by simp
next
  case (Chars P)
  obtain p r c where "s = (p, r, c)" by (cases s)
  with Chars show ?case by (cases r) (auto simp: captured_def split: if_splits)
next
  case LineStart
  obtain p r c where "s = (p, r, c)" by (cases s)
  with LineStart show ?case by (cases p) (auto split: if_splits)
next
  case LineEnd
  obtain p r c where "s = (p, r, c)" by (cases s)
  with LineEnd show ?case by (cases r) (auto split: if_splits)
next
  case (Cat a b)
  from Cat.prems(1) obtain mid where "mid \<in> set (rmatch a s)" "s' \<in> set (rmatch b mid)"
    by auto
  with Cat.IH Cat.prems(2) show ?case by blast
next
  case (Alt a b)
  from Alt.prems(1) have "s' \<in> set (rmatch a s) \<or> s' \<in> set (rmatch b s)" by auto
  with Alt.IH Alt.prems(2) show ?case by blast
next
  case (Star a)
  from Star.prems(1) have "s' \<in> set (star_greedy (length (fst (snd s))) (rmatch a) s)" by simp
  from star_greedy_keeps[of "rmatch a" captured, OF Star.IH this Star.prems(2)]
  show ?case .
next
  case (Plus a)
  from Plus.prems(1) obtain mid where mid: "mid \<in> set (rmatch a s)"
    "s' \<in> set (star_greedy (length (fst (snd mid))) (rmatch a) mid)" by auto
  from Plus.IH[OF mid(1) Plus.prems(2)] have "captured mid" .
  from star_greedy_keeps[of "rmatch a" captured, OF Plus.IH mid(2) this]
  show ?case .
next
  case (PlusLazy a)
  from PlusLazy.prems(1) obtain mid where mid: "mid \<in> set (rmatch a s)"
    "s' \<in> set (star_lazy (length (fst (snd mid))) (rmatch a) mid)" by auto
  from PlusLazy.IH[OF mid(1) PlusLazy.prems(2)] have "captured mid" .
  from star_lazy_keeps[of "rmatch a" captured, OF PlusLazy.IH mid(2) this]
  show ?case .
next
  case (Capture a)
  then show ?case by (auto simp: captured_def set_capture_def split: prod.splits)
qed

lemma rmatch_captures: "always_captures r \<Longrightarrow> s' \<in> set (rmatch r s) \<Longrightarrow> captured s'"
proof (induction r arbitrary: s s')
  case (Cat a b)
  from Cat.prems(2) obtain mid where mid: "mid \<in> set (rmatch a s)" "s' \<in> set (rmatch b mid)" by auto
  show ?case
  proof (cases "always_captures a")
    case True
    from Cat.IH(1)[OF True mid(1)] have "captured mid" .
    with mid(2) show ?thesis by (rule rmatch_keeps)
  next
    case False
    with Cat.prems(1) have "always_captures b" by simp
    from Cat.IH(2)[OF this mid(2)] show ?thesis .
  qed
next
  case (Alt a b)
  from Alt.prems have "always_captures a" "always_captures b"
    and "s' \<in> set (rmatch a s) \<or> s' \<in> set (rmatch b s)" by auto
  with Alt.IH show ?case by blast
next
  case (Plus a)
  from Plus.prems(2) obtain mid where mid: "mid \<in> set (rmatch a s)"
    "s' \<in> set (star_greedy (length (fst (snd mid))) (rmatch a) mid)" by auto
  from Plus.IH[OF _ mid(1)] Plus.prems(1) have "captured mid" by simp
  with mid(2) show ?case using star_greedy_keeps[of "rmatch a" captured] rmatch_keeps by blast
next
  case (PlusLazy a)
  from PlusLazy.prems(2) obtain mid where mid: "mid \<in> set (rmatch a s)"
    "s' \<in> set (star_lazy (length (fst (snd mid))) (rmatch a) mid)" by auto
  from PlusLazy.IH[OF _ mid(1)] PlusLazy.prems(1) have "captured mid" by simp
  with mid(2) show ?case using star_lazy_keeps[of "rmatch a" captured] rmatch_keeps by blast
next
  case (Capture a)
  then show ?case by (auto simp: captured_def set_capture_def split: prod.splits)
qed simp_all

lemma regex_exec_from_captures:
  "always_captures r \<Longrightarrow> regex_exec_from r pre s = Some (before, after, g) \<Longrightarrow> g \<noteq> None"
proof (induction r pre s rule: regex_exec_from.induct)
  case (1 r pre s)
  let ?st = "(case pre of [] \<Rightarrow> None | x # xs \<Rightarrow> Some x, s, None)"
  show ?case
  proof (cases "rmatch r ?st")
    case Nil
    with 1 show ?thesis by (cases s) (auto simp del: regex_exec_from.simps simp add: regex_exec_from.simps[of r pre])
  next
    case (Cons st' rest)
    then have "st' \<in> set (rmatch r ?st)" by simp
    from rmatch_captures[OF "1.prems"(1) this] have c: "captured st'" .
    obtain p' s' c' where st': "st' = (p', s', c')" by (cases st')
    from "1.prems"(2) Cons st' have "g = c'"
      by (simp add: regex_exec_from.simps[of r pre] del: regex_exec_from.simps)
    with c st' show ?thesis by (simp add: captured_def)
  qed
qed

text \<open>
  Group 1 takes part in every match of the three expressions of the parser: a match
  never comes without its capture.
\<close>

lemma regex_exec_captures:
  assumes "r = headerRegex \<or> r = sectionRegex \<or> r = default_authorPattern"
  shows "regex_exec r s \<noteq> Some (before, after, None)"
proof -
  from assms have "always_captures r"
    by (auto simp: headerRegex_def sectionRegex_def default_authorPattern_def)
  then show ?thesis
    using regex_exec_from_captures[of r "[]" s before after None] by (auto simp: regex_exec_def)
qed

section \<open>Properties of the raw-text parser\<close>

lemma segment_message_fields:
  assumes "segment_message env options i seg = Inr m"
  shows "id_msg m = Some i" and "content m = Some (cleaned_content options seg)"
  using assms
  by (auto simp: segment_message_def cleaned_content_def split: option.splits prod.splits)

lemma parse_iter_Inl: "parse_iter env options (Inl e) p = Inl e"
  by (simp add: parse_iter_def)

lemma parse_iter_Inr:
  "parse_iter env options (Inr acc) (i, seg) =
     (case segment_message env options i seg of
        Inl e \<Rightarrow> Inl e
      | Inr m \<Rightarrow> if truthy_string (content m) then Inr (acc @ [m]) else Inr acc)"
  by (simp add: parse_iter_def)

lemma foldl_parse_iter_Inl: "foldl (parse_iter env options) (Inl e) ps = Inl e"
  by (induction ps) (simp_all add: parse_iter_Inl)

lemma foldl_parse_iter:
  assumes "foldl (parse_iter env options) (Inr acc) ps = Inr out"
  shows "map id_msg out =
           map id_msg acc @ map (\<lambda>p. Some (fst p))
             (filter (\<lambda>p. cleaned_content options (snd p) \<noteq> []) ps) \<and>
         map content out =
           map content acc @ map (\<lambda>p. Some (cleaned_content options (snd p)))
             (filter (\<lambda>p. cleaned_content options (snd p) \<noteq> []) ps)"
  using assms
proof (induction ps arbitrary: acc)
  case Nil
  then show ?case by simp
next
  case (Cons p ps)
  obtain i seg where p: "p = (i, seg)" by (cases p)
  show ?case
  proof (cases "segment_message env options i seg")
    case (Inl e)
    with Cons.prems p show ?thesis by (simp add: parse_iter_Inr foldl_parse_iter_Inl)
  next
    case (Inr m)
    note f = segment_message_fields[OF Inr]
    show ?thesis
    proof (cases "cleaned_content options seg = []")
      case True
      with Cons.prems p Inr f have "foldl (parse_iter env options) (Inr acc) ps = Inr out"
        by (simp add: parse_iter_Inr truthy_string_def)
      from Cons.IH[OF this] True p show ?thesis by simp
    next
      case False
      with Cons.prems p Inr f have "foldl (parse_iter env options) (Inr (acc @ [m])) ps = Inr out"
        by (simp add: parse_iter_Inr truthy_string_def)
      from Cons.IH[OF this] False p f show ?thesis by simp
    qed
  qed
qed

lemma zip_upt_nth: "zip [0..<length xs] xs = map (\<lambda>i. (i, xs ! i)) [0..<length xs]"
  by (rule nth_equalityI) simp_all

lemma segments_of_empty: "segments_of options [] = []"
  by (simp add: segments_of_def split_def trim_def)

text \<open>With the default author pattern \<open>parseRawConversation\<close> raises no exception.\<close>

lemma parseRawConversation_default_returns:
  assumes "authorPattern options = None"
  shows "\<exists>out. parseRawConversation env text' options = Inr out"
proof -
  have ap: "authorPattern_of options = default_authorPattern"
    using assms by (simp add: authorPattern_of_def)
  have seg: "\<And>i seg. \<exists>m. segment_message env options i seg = Inr m"
    using regex_exec_captures[of default_authorPattern]
    by (auto simp: segment_message_def ap split: option.splits prod.splits)
  have "\<And>acc. \<exists>out. foldl (parse_iter env options) (Inr acc) ps = Inr out" for ps
  proof (induction ps)
    case Nil
    show ?case by simp
  next
    case (Cons p ps)
    obtain i s where p: "p = (i, s)" by (cases p)
    from seg[of i s] obtain m where "segment_message env options i s = Inr m" ..
    with p Cons show ?case by (simp add: parse_iter_Inr)
  qed
  then show ?thesis by (simp add: parseRawConversation_def Let_def)
qed

text \<open>The example of the specification: two segments, two authors.\<close>

lemma parseRawConversation_example:
  "map_sum id (map author)
     (parseRawConversation example_env (''Alice: hi'' @ [CHR 0x0A, CHR 0x0A] @ ''Bob: hello'')
        default_parse_options) = Inr [Some ''Alice'', Some ''Bob''] \<and>
   map_sum id (map content)
     (parseRawConversation example_env (''Alice: hi'' @ [CHR 0x0A, CHR 0x0A] @ ''Bob: hello'')
        default_parse_options) = Inr [Some ''hi'', Some ''hello'']"
  by code_simp

text \<open>
  C4, as stated, fails: a dropped segment does consume its positional id. In
  \<open>gapped_text\<close> the second of three segments is cleaned to the empty string and
  dropped, and the two messages returned have the ids 0 and 2.
\<close>

theorem parseRawConversation_ids_counterexample:
  "segments_of default_parse_options gapped_text = [''Alice: hi'', ''Bob:'', ''Carol: yo''] \<and>
   cleaned_content default_parse_options ''Bob:'' = [] \<and>
   map_sum id (map id_msg) (parseRawConversation example_env gapped_text default_parse_options) =
     Inr [Some 0, Some 2] \<and>
   map_sum id (map content) (parseRawConversation example_env gapped_text default_parse_options) =
     Inr [Some ''hi'', Some ''yo'']"
  by code_simp

text \<open>
  C4, amended. A segment whose cleaned content is empty appears nowhere in the output,
  but it keeps its position: the id of each message returned is the index of its segment
  in the array of segments (the pieces of the text that are not blank), its content is
  the cleaned content of that segment, and no message with an empty content is
  returned. The ids are the indices of the kept segments and of no other, in strictly
  increasing order: the index of a dropped segment is the id of no message.
\<close>

theorem parseRawConversation_ids:
  assumes "parseRawConversation env text' options = Inr out"
  shows "map id_msg out = map Some (kept_indices options text') \<and>
         map content out =
           map (\<lambda>i. Some (cleaned_content options (segments_of options text' ! i)))
             (kept_indices options text') \<and>
         (\<forall>m\<in>set out. content m \<noteq> Some []) \<and>
         sorted_wrt (<) (kept_indices options text') \<and>
         set (kept_indices options text') =
           {i. i < length (segments_of options text') \<and>
               cleaned_content options (segments_of options text' ! i) \<noteq> []}"
proof -
  let ?segs = "segments_of options text'"
  have run: "foldl (parse_iter env options) (Inr []) (zip [0..<length ?segs] ?segs) = Inr out"
  proof (cases "text' = []")
    case True
    with assms show ?thesis by (simp add: parseRawConversation_def segments_of_empty)
  next
    case False
    with assms show ?thesis by (simp add: parseRawConversation_def Let_def)
  qed
  from foldl_parse_iter[OF run]
  have ids: "map id_msg out = map Some (kept_indices options text')"
    and cs: "map content out =
           map (\<lambda>i. Some (cleaned_content options (?segs ! i))) (kept_indices options text')"
    by (simp_all add: zip_upt_nth filter_map comp_def kept_indices_def)
  have "\<forall>c\<in>set (map content out). c \<noteq> Some []"
    unfolding cs by (auto simp: kept_indices_def)
  then have ne: "\<forall>m\<in>set out. content m \<noteq> Some []" by simp
  have so: "sorted_wrt (<) (kept_indices options text')"
    unfolding kept_indices_def by (rule sorted_wrt_filter) (simp add: sorted_wrt_upt)
  have se: "set (kept_indices options text') =
           {i. i < length ?segs \<and> cleaned_content options (?segs ! i) \<noteq> []}"
    by (auto simp: kept_indices_def)
  from ids cs ne so se show ?thesis by blast
qed

theorem parseRawConversation_ids_witness:
  "parseRawConversation example_env gapped_text default_parse_options \<noteq> Inl TypeError \<and>
   segments_of default_parse_options gapped_text = [''Alice: hi'', ''Bob:'', ''Carol: yo''] \<and>
   kept_indices default_parse_options gapped_text = [0, 2] \<and>
   map id_msg (projr (parseRawConversation example_env gapped_text default_parse_options)) = [Some 0, Some 2]"
proof -
  let ?r = "parseRawConversation example_env gapped_text default_parse_options"
  have n: "?r \<noteq> Inl TypeError" by code_simp
  then have h: "?r = Inr (projr ?r)" by (cases ?r) (auto, metis js_error.exhaust)
  have s: "segments_of default_parse_options gapped_text = [''Alice: hi'', ''Bob:'', ''Carol: yo'']"
    by code_simp
  have k: "kept_indices default_parse_options gapped_text = [0, 2]" by code_simp
  from parseRawConversation_ids[OF h] k n s show ?thesis by simp
qed

text \<open>
  A piece that is a no-break space alone is blank and takes no index; a segment whose
  author prefix is followed by a no-break space only is cleaned to the empty string
  and dropped, and its index 1 is skipped.
\<close>

lemma parseRawConversation_no_break_space:
  "segments_of default_parse_options no_break_space_text =
     [''Alice: hi'', ''Bob:'' @ [CHR 0xA0], ''Carol: yo''] \<and>
   map_sum id (map id_msg)
     (parseRawConversation example_env no_break_space_text default_parse_options) =
     Inr [Some 0, Some 2] \<and>
   map_sum id (map content)
     (parseRawConversation example_env no_break_space_text default_parse_options) =
     Inr [Some ''hi'', Some ''yo'']"
  by code_simp

section \<open>Properties of the section merger\<close>

lemma set_foldl_set_add: "set (foldl set_add acc xs) = set acc \<union> set xs"
  by (induction xs arbitrary: acc) (auto simp: set_add_def)

lemma distinct_foldl_set_add: "distinct acc \<Longrightarrow> distinct (foldl set_add acc xs)"
  by (induction xs arbitrary: acc) (auto simp: set_add_def)

lemma new_Set_props: "set (new_Set xs) = set xs" "distinct (new_Set xs)"
  by (simp_all add: new_Set_def set_foldl_set_add distinct_foldl_set_add)

lemma merge_iter_push:
  "\<not> (if topic (sec_of st (last merged)) = topic (sec_of st current) then 1 else 0 :: rat) \<ge> thr \<Longrightarrow>
   merge_iter thr (merged, st) current = (merged @ [current], st)"
  by (simp add: merge_iter_def Let_def)

lemma merge_iter_fuse:
  assumes "(if topic (sec_of st (last merged)) = topic (sec_of st current) then 1 else 0 :: rat) \<ge> thr"
  shows "\<exists>st'. merge_iter thr (merged, st) current = (merged, st') \<and>
           fused st st' (last merged) current \<and> frame st st' [last merged]"
  using assms
  by (auto simp: merge_iter_def Let_def fused_def frame_def same_identity_def new_Set_props)

lemma frame_refl: "frame st st out"
  by (simp add: frame_def same_identity_def)

lemma frame_trans:
  assumes "frame st st1 m1" and "frame st1 st2 m2" and "set m1 \<subseteq> set m2"
  shows "frame st st2 m2"
proof -
  have ref: "\<And>a. messages (sec_of st1 a) = messages (sec_of st a)"
    using assms(1) by (simp add: frame_def same_identity_def)
  have 1: "\<forall>a. a \<notin> set m2 \<longrightarrow> sec_of st2 a = sec_of st a"
    using assms by (auto simp: frame_def)
  have 2: "\<forall>a. same_identity (sec_of st a) (sec_of st2 a)"
    using assms(1,2) by (simp add: frame_def same_identity_def)
  have 3: "\<forall>r. r \<notin> (\<lambda>a. messages (sec_of st a)) ` set m2 \<longrightarrow> arr_of st2 r = arr_of st r"
  proof (intro allI impI)
    fix r assume r: "r \<notin> (\<lambda>a. messages (sec_of st a)) ` set m2"
    then have "r \<notin> (\<lambda>a. messages (sec_of st1 a)) ` set m2" by (simp add: ref)
    then have a: "arr_of st2 r = arr_of st1 r" using assms(2) by (simp add: frame_def)
    from r assms(3) have "r \<notin> (\<lambda>a. messages (sec_of st a)) ` set m1" by auto
    then have "arr_of st1 r = arr_of st r" using assms(1) by (simp add: frame_def)
    with a show "arr_of st2 r = arr_of st r" by simp
  qed
  have 4: "\<forall>r. prefix (arr_of st r) (arr_of st2 r)"
    using assms(1,2) by (meson frame_def prefix_order.order_trans)
  from 1 2 3 4 show ?thesis unfolding frame_def by blast
qed

lemma frame_mono: "frame st st' m \<Longrightarrow> set m \<subseteq> set m' \<Longrightarrow> frame st st' m'"
  unfolding frame_def by (meson image_mono subsetD)

lemma merge_iter_frame:
  assumes "merged \<noteq> []" and "merge_iter thr (merged, st) current = (merged', st')"
  shows "prefix merged merged' \<and> set merged' \<subseteq> set merged \<union> {current} \<and> frame st st' merged'"
proof (cases "(if topic (sec_of st (last merged)) = topic (sec_of st current) then 1 else 0 :: rat) \<ge> thr")
  case True
  from merge_iter_fuse[OF True] assms(2) have m: "merged' = merged" and f: "frame st st' [last merged]"
    by auto
  have "set [last merged] \<subseteq> set merged'" using assms(1) m by simp
  with f have "frame st st' merged'" by (rule frame_mono)
  with m show ?thesis by auto
next
  case False
  from merge_iter_push[OF False] assms(2) show ?thesis by (auto simp: frame_refl)
qed

lemma merge_loop_frame:
  assumes "merged \<noteq> []" and "foldl (merge_iter thr) (merged, st) rest = (out, st')"
  shows "prefix merged out \<and> set out \<subseteq> set merged \<union> set rest \<and> frame st st' out"
  using assms
proof (induction rest arbitrary: merged st)
  case Nil
  then show ?case by (simp add: frame_refl)
next
  case (Cons c rest)
  obtain m1 st1 where step: "merge_iter thr (merged, st) c = (m1, st1)" by (cases "merge_iter thr (merged, st) c")
  from merge_iter_frame[OF Cons.prems(1) step]
  have p1: "prefix merged m1" and s1: "set m1 \<subseteq> set merged \<union> {c}" and f1: "frame st st1 m1" by auto
  from p1 Cons.prems(1) have ne: "m1 \<noteq> []" by auto
  from Cons.prems(2) step have "foldl (merge_iter thr) (m1, st1) rest = (out, st')" by simp
  from Cons.IH[OF ne this]
  have p2: "prefix m1 out" and s2: "set out \<subseteq> set m1 \<union> set rest" and f2: "frame st1 st' out" by auto
  have "set m1 \<subseteq> set out" using p2 by (rule set_mono_prefix)
  with f1 f2 have "frame st st' out" by (rule frame_trans)
  moreover have "prefix merged out" using p1 p2 by (rule prefix_order.order_trans)
  moreover have "set out \<subseteq> set merged \<union> set (c # rest)" using s1 s2 by auto
  ultimately show ?case by blast
qed

lemma merge_loop_unchanged:
  assumes "0 < thr" and "merged \<noteq> []"
    and "distinct_adj (map (\<lambda>a. topic (sec_of st a)) (merged @ rest))"
  shows "foldl (merge_iter thr) (merged, st) rest = (merged @ rest, st)"
  using assms(2,3)
proof (induction rest arbitrary: merged)
  case Nil
  then show ?case by simp
next
  case (Cons c rest)
  from Cons.prems(1) have split: "merged = butlast merged @ [last merged]" by simp
  have "distinct_adj (map (\<lambda>a. topic (sec_of st a)) (butlast merged @ [last merged] @ c # rest))"
    using Cons.prems(2) split by (metis append_assoc)
  then have "topic (sec_of st (last merged)) \<noteq> topic (sec_of st c)"
    by (simp add: distinct_adj_append_iff)
  then have "merge_iter thr (merged, st) c = (merged @ [c], st)"
    using assms(1) by (simp add: merge_iter_push)
  moreover have "foldl (merge_iter thr) (merged @ [c], st) rest = ((merged @ [c]) @ rest, st)"
    using Cons.prems by (intro Cons.IH) simp_all
  ultimately show ?case by simp
qed

lemma mergeSimilarSections_unchanged:
  assumes "0 < threshold_of threshold"
    and "distinct_adj (map (\<lambda>a. topic (sec_of st a)) secs)"
  shows "mergeSimilarSections st secs threshold = (secs, st)"
proof (cases secs)
  case Nil
  then show ?thesis by (simp add: mergeSimilarSections_def)
next
  case (Cons first rest)
  show ?thesis
  proof (cases rest)
    case Nil
    with Cons show ?thesis by (simp add: mergeSimilarSections_def)
  next
    case (Cons second rest')
    have "foldl (merge_iter (threshold_of threshold)) ([first], st) rest = ([first] @ rest, st)"
      using assms \<open>secs = first # rest\<close> by (intro merge_loop_unchanged) simp_all
    with Cons \<open>secs = first # rest\<close> show ?thesis by (simp add: mergeSimilarSections_def)
  qed
qed

lemma mergeSimilarSections_snoc:
  assumes "xs \<noteq> []"
  shows "mergeSimilarSections st (xs @ [cur]) threshold =
         merge_iter (threshold_of threshold) (mergeSimilarSections st xs threshold) cur"
proof (cases xs)
  case Nil
  with assms show ?thesis by simp
next
  case (Cons first rest)
  then show ?thesis
    by (cases rest) (simp_all add: mergeSimilarSections_def)
qed

lemma merge_loop_distinct_adj:
  assumes "0 < thr" and "thr \<le> 1" and "merged \<noteq> []"
    and "distinct_adj (map (\<lambda>a. topic (sec_of st a)) merged)"
    and "foldl (merge_iter thr) (merged, st) rest = (out, st')"
  shows "distinct_adj (map (\<lambda>a. topic (sec_of st' a)) out)"
  using assms(3,4,5)
proof (induction rest arbitrary: merged st)
  case Nil
  then show ?case by simp
next
  case (Cons c rest)
  show ?case
  proof (cases "topic (sec_of st (last merged)) = topic (sec_of st c)")
    case True
    then have "(if topic (sec_of st (last merged)) = topic (sec_of st c) then 1 else 0 :: rat) \<ge> thr"
      using assms(2) by simp
    from merge_iter_fuse[OF this] obtain st1 where
      1: "merge_iter thr (merged, st) c = (merged, st1)" and fr: "frame st st1 [last merged]" by blast
    from fr have "(\<lambda>a. topic (sec_of st1 a)) = (\<lambda>a. topic (sec_of st a))"
      by (auto simp: frame_def same_identity_def)
    with Cons.prems(2) have d: "distinct_adj (map (\<lambda>a. topic (sec_of st1 a)) merged)" by simp
    from Cons.prems(3) 1 have "foldl (merge_iter thr) (merged, st1) rest = (out, st')" by simp
    from Cons.IH[OF Cons.prems(1) d this] show ?thesis .
  next
    case False
    then have "\<not> (if topic (sec_of st (last merged)) = topic (sec_of st c) then 1 else 0 :: rat) \<ge> thr"
      using assms(1) by simp
    from merge_iter_push[OF this] have 1: "merge_iter thr (merged, st) c = (merged @ [c], st)" .
    have d: "distinct_adj (map (\<lambda>a. topic (sec_of st a)) (merged @ [c]))"
      using Cons.prems(1,2) False by (simp add: distinct_adj_append_iff last_map)
    from Cons.prems(3) 1 have "foldl (merge_iter thr) (merged @ [c], st) rest = (out, st')" by simp
    from Cons.IH[OF _ d this] show ?thesis by simp
  qed
qed

lemma mergeSimilarSections_distinct_adj:
  assumes "0 < threshold_of threshold" and "threshold_of threshold \<le> 1"
    and "mergeSimilarSections st secs threshold = (out, st')"
  shows "distinct_adj (map (\<lambda>a. topic (sec_of st' a)) out)"
proof (cases secs)
  case Nil
  with assms(3) show ?thesis by (auto simp: mergeSimilarSections_def)
next
  case (Cons first rest)
  show ?thesis
  proof (cases rest)
    case Nil
    with Cons assms(3) show ?thesis by (auto simp: mergeSimilarSections_def)
  next
    case (Cons second rest')
    with \<open>secs = first # rest\<close> assms(3)
    have "foldl (merge_iter (threshold_of threshold)) ([first], st) rest = (out, st')"
      by (simp add: mergeSimilarSections_def)
    from merge_loop_distinct_adj[OF assms(1,2) _ _ this] show ?thesis by simp
  qed
qed

text \<open>
  C3, as stated, fails: \<open>mergeSimilarSections\<close> writes to the section objects its
  caller supplies. Merging the sections at 0 and 1 of \<open>example_store\<close> leaves the
  section object at 0 with another \<open>endTime\<close>, other \<open>participants\<close> and a longer
  \<open>messages\<close> array.
\<close>

theorem mergeSimilarSections_mutates_input_counterexample:
  "endTime (sec_of example_store 0) = Some 2000 \<and>
   participants (sec_of example_store 0) = [''alice''] \<and>
   arr_of example_store 10 = [plain_message (TsNumber 1000) (Some ''hi'')] \<and>
   fst (mergeSimilarSections example_store [0, 1] None) = [0] \<and>
   endTime (sec_of (snd (mergeSimilarSections example_store [0, 1] None)) 0) = Some 9000 \<and>
   participants (sec_of (snd (mergeSimilarSections example_store [0, 1] None)) 0) = [''alice'', ''bob''] \<and>
   arr_of (snd (mergeSimilarSections example_store [0, 1] None)) 10 =
     [plain_message (TsNumber 1000) (Some ''hi''), plain_message (TsNumber 3000) (Some ''there'')]"
  by code_simp

text \<open>
  C3, amended. \<open>mergeSimilarSections\<close> changes in place the section objects that
  survive in its output and nothing else: every section object that is not in the output
  is unchanged; no section object changes its \<open>id\<close>, \<open>title\<close>, \<open>topic\<close>,
  \<open>startTime\<close> or the identity of its \<open>messages\<close> array; every array that is not the
  \<open>messages\<close> of a section of the output is unchanged, and the others keep their
  elements and grow at the end only; the output holds sections of the input only; with
  fewer than two sections the input is returned and nothing is written.
\<close>

theorem mergeSimilarSections_frame:
  assumes "mergeSimilarSections st secs threshold = (out, st')"
  shows "set out \<subseteq> set secs \<and>
         (\<forall>a. a \<notin> set out \<longrightarrow> sec_of st' a = sec_of st a) \<and>
         (\<forall>a. same_identity (sec_of st a) (sec_of st' a)) \<and>
         (\<forall>r. r \<notin> (\<lambda>a. messages (sec_of st a)) ` set out \<longrightarrow> arr_of st' r = arr_of st r) \<and>
         (\<forall>r. prefix (arr_of st r) (arr_of st' r)) \<and>
         (length secs < 2 \<longrightarrow> out = secs \<and> st' = st)"
proof (cases secs)
  case Nil
  with assms show ?thesis by (auto simp: mergeSimilarSections_def same_identity_def)
next
  case (Cons first rest)
  show ?thesis
  proof (cases rest)
    case Nil
    with Cons assms show ?thesis by (auto simp: mergeSimilarSections_def same_identity_def)
  next
    case (Cons second rest')
    with \<open>secs = first # rest\<close> assms
    have "foldl (merge_iter (threshold_of threshold)) ([first], st) rest = (out, st')"
      by (simp add: mergeSimilarSections_def)
    from merge_loop_frame[OF _ this]
    have "set out \<subseteq> set secs" and "frame st st' out"
      using \<open>secs = first # rest\<close> by auto
    moreover have "\<not> length secs < 2" using Cons \<open>secs = first # rest\<close> by simp
    ultimately show ?thesis unfolding frame_def by blast
  qed
qed

theorem mergeSimilarSections_frame_witness:
  "fst (mergeSimilarSections example_store [0, 1, 2] None) = [0, 2] \<and>
   sec_of (snd (mergeSimilarSections example_store [0, 1, 2] None)) 1 = sec_of example_store 1 \<and>
   arr_of (snd (mergeSimilarSections example_store [0, 1, 2] None)) 11 = arr_of example_store 11 \<and>
   topic (sec_of (snd (mergeSimilarSections example_store [0, 1, 2] None)) 0) = ''general''"
proof -
  let ?r = "mergeSimilarSections example_store [0, 1, 2] None"
  have h: "?r = (fst ?r, snd ?r)" by simp
  have o: "fst ?r = [0, 2]" by code_simp
  have n: "(1::nat) \<notin> set (fst ?r)" by code_simp
  have m: "11 \<notin> (\<lambda>a. messages (sec_of example_store a)) ` set (fst ?r)" by code_simp
  have t: "topic (sec_of example_store 0) = ''general''" by code_simp
  from mergeSimilarSections_frame[OF h] n m
  have "sec_of (snd ?r) 1 = sec_of example_store 1"
    "arr_of (snd ?r) 11 = arr_of example_store 11"
    "same_identity (sec_of example_store 0) (sec_of (snd ?r) 0)" by blast+
  with o t show ?thesis by (simp add: same_identity_def)
qed

text \<open>
  C6. When the section \<open>cur\<close> that follows the sections \<open>xs\<close> has the topic of the
  last section accumulated from \<open>xs\<close>, and the threshold is at most 1 (it is 0.7 by
  default), \<open>mergeSimilarSections\<close> accumulates the same sections for \<open>xs\<close> followed
  by \<open>cur\<close> and fuses \<open>cur\<close> into the last of them: its \<open>messages\<close> are its
  messages followed by those of \<open>cur\<close>, its \<open>endTime\<close> is that of \<open>cur\<close>, its
  \<open>participants\<close> are those of both without duplicates, and its \<open>id\<close>, \<open>title\<close>,
  \<open>topic\<close> and \<open>startTime\<close> are kept. In particular three sections with the topics
  A, A, B give, at the threshold 0.7, two sections: the first with the second fused
  into it, and the third as it was.
\<close>

theorem mergeSimilarSections_fuses:
  "(xs \<noteq> [] \<and> mergeSimilarSections st xs threshold = (merged, st1) \<and>
    topic (sec_of st1 (last merged)) = topic (sec_of st1 cur) \<and> threshold_of threshold \<le> 1 \<longrightarrow>
      (\<exists>st2. mergeSimilarSections st (xs @ [cur]) threshold = (merged, st2) \<and>
             fused st1 st2 (last merged) cur)) \<and>
   (topic (sec_of st a) = topic (sec_of st b) \<and> topic (sec_of st c) \<noteq> topic (sec_of st a) \<and>
    threshold_of threshold = 7 / 10 \<longrightarrow>
      (\<exists>st'. mergeSimilarSections st [a, b, c] threshold = ([a, c], st') \<and>
             fused st st' a b \<and> sec_of st' c = sec_of st c))"
proof (intro conjI impI)
  assume h: "xs \<noteq> [] \<and> mergeSimilarSections st xs threshold = (merged, st1) \<and>
    topic (sec_of st1 (last merged)) = topic (sec_of st1 cur) \<and> threshold_of threshold \<le> 1"
  then have "(if topic (sec_of st1 (last merged)) = topic (sec_of st1 cur) then 1 else 0 :: rat)
               \<ge> threshold_of threshold" by simp
  from merge_iter_fuse[OF this] obtain st2 where
    "merge_iter (threshold_of threshold) (merged, st1) cur = (merged, st2)"
    "fused st1 st2 (last merged) cur" by blast
  with h mergeSimilarSections_snoc[of xs st cur threshold]
  show "\<exists>st2. mergeSimilarSections st (xs @ [cur]) threshold = (merged, st2) \<and>
             fused st1 st2 (last merged) cur" by auto
next
  assume h: "topic (sec_of st a) = topic (sec_of st b) \<and> topic (sec_of st c) \<noteq> topic (sec_of st a) \<and>
    threshold_of threshold = 7 / 10"
  let ?thr = "threshold_of threshold"
  from h have "(if topic (sec_of st (last [a])) = topic (sec_of st b) then 1 else 0 :: rat) \<ge> ?thr"
    by simp
  from merge_iter_fuse[OF this] obtain st1 where
    1: "merge_iter ?thr ([a], st) b = ([a], st1)" and f: "fused st st1 a b"
    and fr: "frame st st1 [a]" by auto
  from h have ca: "c \<noteq> a" by auto
  with fr have c: "sec_of st1 c = sec_of st c" by (simp add: frame_def)
  from fr have "topic (sec_of st1 a) = topic (sec_of st a)" by (simp add: frame_def same_identity_def)
  with c h have "topic (sec_of st1 (last [a])) \<noteq> topic (sec_of st1 c)"
    by auto
  with h have "\<not> (if topic (sec_of st1 (last [a])) = topic (sec_of st1 c) then 1 else 0 :: rat) \<ge> ?thr"
    by simp
  from merge_iter_push[OF this] have 2: "merge_iter ?thr ([a], st1) c = ([a, c], st1)" by simp
  have "mergeSimilarSections st [a, b, c] threshold = ([a, c], st1)"
    using 1 2 by (simp add: mergeSimilarSections_def)
  with f c show "\<exists>st'. mergeSimilarSections st [a, b, c] threshold = ([a, c], st') \<and>
             fused st st' a b \<and> sec_of st' c = sec_of st c" by blast
qed

theorem mergeSimilarSections_fuses_witness:
  "fst (mergeSimilarSections example_store [0, 1] None) = [0] \<and>
   fused example_store (snd (mergeSimilarSections example_store [0, 1] None)) 0 1 \<and>
   fst (mergeSimilarSections example_store [0, 1, 2] None) = [0, 2] \<and>
   fused example_store (snd (mergeSimilarSections example_store [0, 1, 2] None)) 0 1"
proof -
  have a: "[0::nat] \<noteq> [] \<and> mergeSimilarSections example_store [0] None = ([0], example_store) \<and>
    topic (sec_of example_store (last [0])) = topic (sec_of example_store 1) \<and> threshold_of None \<le> 1"
    by (simp add: mergeSimilarSections_def threshold_of_def example_store_def example_section_def)
  have b: "topic (sec_of example_store 0) = topic (sec_of example_store 1) \<and>
    topic (sec_of example_store 2) \<noteq> topic (sec_of example_store 0) \<and> threshold_of None = 7 / 10"
    by (simp add: threshold_of_def example_store_def example_section_def)
  from mergeSimilarSections_fuses[of "[0]" example_store None "[0]" example_store 1 0 1 2] a b
  obtain st2 st' where
    "mergeSimilarSections example_store ([0] @ [1]) None = ([0], st2)" "fused example_store st2 (last [0]) 1"
    "mergeSimilarSections example_store [0, 1, 2] None = ([0, 2], st')" "fused example_store st' 0 1"
    by blast
  then show ?thesis by simp
qed

text \<open>
  C8. At the default threshold, \<open>mergeSimilarSections\<close> returns a list of sections
  in which no two neighbours have the same topic as it is, and writes nothing. Its own
  output is such a list, so merging it again changes nothing.
\<close>

theorem mergeSimilarSections_idempotent:
  "(distinct_adj (map (\<lambda>a. topic (sec_of st a)) secs) \<longrightarrow>
      mergeSimilarSections st secs None = (secs, st)) \<and>
   (mergeSimilarSections st secs None = (out, st') \<longrightarrow>
      distinct_adj (map (\<lambda>a. topic (sec_of st' a)) out) \<and>
      mergeSimilarSections st' out None = (out, st'))"
proof (intro conjI impI)
  have t: "0 < threshold_of None" "threshold_of None \<le> 1" by (simp_all add: threshold_of_def)
  {
    assume "distinct_adj (map (\<lambda>a. topic (sec_of st a)) secs)"
    with t(1) show "mergeSimilarSections st secs None = (secs, st)"
      by (rule mergeSimilarSections_unchanged)
  }
  {
    assume "mergeSimilarSections st secs None = (out, st')"
    from mergeSimilarSections_distinct_adj[OF t this]
    show d: "distinct_adj (map (\<lambda>a. topic (sec_of st' a)) out)" .
    with t(1) show "mergeSimilarSections st' out None = (out, st')"
      by (rule mergeSimilarSections_unchanged)
  }
qed

theorem mergeSimilarSections_idempotent_witness:
  "distinct_adj (map (\<lambda>a. topic (sec_of example_store a)) [1, 2]) \<and>
   mergeSimilarSections example_store [1, 2] None = ([1, 2], example_store) \<and>
   fst (mergeSimilarSections example_store [0, 1, 2] None) = [0, 2] \<and>
   mergeSimilarSections (snd (mergeSimilarSections example_store [0, 1, 2] None)) [0, 2] None =
     ([0, 2], snd (mergeSimilarSections example_store [0, 1, 2] None))"
proof -
  let ?r = "mergeSimilarSections example_store [0, 1, 2] None"
  have d: "distinct_adj (map (\<lambda>a. topic (sec_of example_store a)) [1, 2])"
    by (simp add: example_store_def example_section_def)
  have o: "fst ?r = [0, 2]" by code_simp
  then have h: "?r = ([0, 2], snd ?r)" by (metis prod.collapse)
  from mergeSimilarSections_idempotent[of example_store "[1, 2]" "[0, 2]" "snd ?r"] d
  have 1: "mergeSimilarSections example_store [1, 2] None = ([1, 2], example_store)" by blast
  from mergeSimilarSections_idempotent[of example_store "[0, 1, 2]" "[0, 2]" "snd ?r"] h
  have 2: "mergeSimilarSections (snd ?r) [0, 2] None = ([0, 2], snd ?r)" by blast
  from d 1 o 2 show ?thesis by blast
qed

end
